theory Spec2Isabelle
  imports
    Main
    "HOL-Library.AList"
    "HOL-Library.Char_ord"
    "HOL-Library.List_Lexorder"
    "HOL-Library.Multiset"
    "HOL-Library.Sublist"
    "HOL-Library.While_Combinator"
begin

section \<open>Signature documents\<close>

text \<open>
  The rule sorting of \<^verbatim>\<open>download_signatures\<close> (al_ui/api/v4/signature.py) works on
  the dictionaries returned by \<^verbatim>\<open>STORAGE.signature.multiget(..., as_obj=False)\<close>.
  The keys the code reads are \<^verbatim>\<open>name\<close>, \<^verbatim>\<open>type\<close>, \<^verbatim>\<open>depends\<close>,
  \<^verbatim>\<open>meta.rule_id\<close> and \<^verbatim>\<open>meta.rule_version\<close>.

  \<^item> \<^verbatim>\<open>name\<close> is a string or \<^verbatim>\<open>None\<close>: the safe pass reads it with
    \<^verbatim>\<open>s.get('name', None)\<close>, so there a missing key and a \<^verbatim>\<open>None\<close> value are the
    same thing.
  \<^item> \<^verbatim>\<open>depends\<close> is a list of rule names or \<^verbatim>\<open>None\<close>
    (\<^verbatim>\<open>s['depends'] is None or len(s['depends']) == 0\<close>).
  \<^item> \<^verbatim>\<open>meta.rule_version\<close> may be missing: the code reads it with
    \<^verbatim>\<open>.get('rule_version', '1')\<close> for the incoming record and with
    \<^verbatim>\<open>.get('rule_version', '0')\<close> for the current holder. \<^verbatim>\<open>int(...)\<close> is applied
    to a value that is already an integer (or its numeral), so it is the identity here.
  \<^item> \<^verbatim>\<open>type\<close> and \<^verbatim>\<open>meta.rule_id\<close> are subscripted on every path and are
    always there in a stored document.
\<close>

record meta =
  rule_id :: string
  rule_version :: "int option"

record signature =
  name :: "string option"
  type :: string
  depends :: "string list option"
  meta :: meta

text \<open>Python truthiness of the name: \<^verbatim>\<open>not name\<close> holds for \<^verbatim>\<open>None\<close> and for \<^verbatim>\<open>""\<close>.\<close>

definition not_name :: "string option \<Rightarrow> bool" where
  "not_name n = (case n of None \<Rightarrow> True | Some x \<Rightarrow> x = [])"

text \<open>\<^verbatim>\<open>int(s.get('meta', {}).get('rule_version', '1'))\<close>\<close>

definition version :: "signature \<Rightarrow> int" where
  "version s = (case rule_version (meta s) of None \<Rightarrow> 1 | Some v \<Rightarrow> v)"

text \<open>
  \<^verbatim>\<open>p = rules_map.get(name, {})\<close> followed by
  \<^verbatim>\<open>int(p.get('meta', {}).get('rule_version', '0'))\<close>: 0 when there is no holder, and
  also when the holder has no \<^verbatim>\<open>rule_version\<close>.
\<close>

definition pversion :: "signature option \<Rightarrow> int" where
  "pversion p =
     (case p of
        None \<Rightarrow> 0
      | Some h \<Rightarrow> (case rule_version (meta h) of None \<Rightarrow> 0 | Some v \<Rightarrow> v))"

text \<open>\<^verbatim>\<open>s['depends']\<close> as the list the loops iterate over.\<close>

definition depends_list :: "signature \<Rightarrow> string list" where
  "depends_list s = (case depends s of None \<Rightarrow> [] | Some ds \<Rightarrow> ds)"

text \<open>\<^verbatim>\<open>s['depends'] is None or len(s['depends']) == 0\<close>\<close>

definition no_depends :: "signature \<Rightarrow> bool" where
  "no_depends s = (case depends s of None \<Rightarrow> True | Some ds \<Rightarrow> length ds = 0)"

text \<open>A document with every field present, for stating concrete inputs.\<close>

definition doc :: "string \<Rightarrow> string \<Rightarrow> string list \<Rightarrow> string \<Rightarrow> int \<Rightarrow> signature" where
  "doc n t ds i v =
     \<lparr>name = Some n, type = t, depends = Some ds,
      meta = \<lparr>rule_id = i, rule_version = Some v\<rparr>\<rparr>"

section \<open>Duplicate resolution (safe mode)\<close>

text \<open>
  \<^verbatim>\<open>rules_map\<close> is a Python dict, which keeps its keys in the order of their first
  insertion; assigning to a key that is there replaces the value in place. An association
  list with \<^const>\<open>AList.update\<close> has exactly this behaviour, and \<^verbatim>\<open>rules_map.values()\<close>
  is \<open>map snd\<close>.
\<close>

type_synonym rules_map = "(string \<times> signature) list"

text \<open>One iteration of \<^verbatim>\<open>for s in signature_list\<close> (lines 275-289).\<close>

fun dedup_step :: "rules_map \<times> string list \<Rightarrow> signature \<Rightarrow> rules_map \<times> string list" where
  "dedup_step (rules_map, duplicate_rules) s =
     (case name s of
        None \<Rightarrow> (rules_map, duplicate_rules)
      | Some n \<Rightarrow>
          if n = [] then (rules_map, duplicate_rules)
          else if version s < pversion (map_of rules_map n)
            then (rules_map, duplicate_rules @ [n])
          else (AList.update n s rules_map, duplicate_rules))"

definition dedup :: "signature list \<Rightarrow> rules_map \<times> string list" where
  "dedup signature_list = foldl dedup_step ([], []) signature_list"

section \<open>The sorting state\<close>

text \<open>
  The local variables of the block between \<^verbatim>\<open># Sort rules to satisfy dependencies\<close> and
  \<^verbatim>\<open># End of sort\<close>. \<^verbatim>\<open>name_map\<close> is a dict from names to \<^verbatim>\<open>True\<close>; its keys are
  values of \<^verbatim>\<open>s['name']\<close>, so strings or \<^verbatim>\<open>None\<close>. \<^verbatim>\<open>error_rules\<close> receives
  dependency names in the private pass and values of \<^verbatim>\<open>x["name"]\<close> in the general pass.
\<close>

type_synonym name_map = "string option \<rightharpoonup> bool"

record sorter =
  duplicate_rules :: "string list"
  error_rules :: "string option list"
  global_rules :: "signature list"
  private_rules_no_dep :: "signature list"
  private_rules_dep :: "signature list"
  rules_no_dep :: "signature list"
  rules_dep :: "signature list"
  name_map :: name_map
  signature_list :: "signature list"

definition init :: "string list \<Rightarrow> sorter" where
  "init dups =
     \<lparr>duplicate_rules = dups, error_rules = [], global_rules = [],
      private_rules_no_dep = [], private_rules_dep = [], rules_no_dep = [],
      rules_dep = [], name_map = Map.empty, signature_list = []\<rparr>"

section \<open>Partition into buckets\<close>

text \<open>\<^verbatim>\<open>s['type'].startswith("global")\<close> and \<^verbatim>\<open>s['type'].startswith("private")\<close>\<close>

definition is_global :: "signature \<Rightarrow> bool" where
  "is_global s = prefix ''global'' (type s)"

definition is_private :: "signature \<Rightarrow> bool" where
  "is_private s = prefix ''private'' (type s)"


text \<open>One iteration of the loop of lines 293-308.\<close>

definition partition_step :: "sorter \<Rightarrow> signature \<Rightarrow> sorter" where
  "partition_step st s =
     (if is_global s then
        st\<lparr>global_rules := global_rules st @ [s],
           name_map := (name_map st)(name s \<mapsto> True)\<rparr>
      else if is_private s then
        (if no_depends s then
           st\<lparr>private_rules_no_dep := private_rules_no_dep st @ [s],
              name_map := (name_map st)(name s \<mapsto> True)\<rparr>
         else st\<lparr>private_rules_dep := private_rules_dep st @ [s]\<rparr>)
      else
        (if no_depends s then
           st\<lparr>rules_no_dep := rules_no_dep st @ [s],
              name_map := (name_map st)(name s \<mapsto> True)\<rparr>
         else st\<lparr>rules_dep := rules_dep st @ [s]\<rparr>))"

text \<open>
  \<^verbatim>\<open>sorted(bucket, key=lambda k: k['meta']['rule_id'])\<close>: a stable sort, on strings
  compared character by character, a proper prefix first.
\<close>

definition by_rule_id :: "signature list \<Rightarrow> signature list" where
  "by_rule_id rules = sort_key (\<lambda>k. rule_id (meta k)) rules"

definition sort_buckets :: "sorter \<Rightarrow> sorter" where
  "sort_buckets st =
     st\<lparr>global_rules := by_rule_id (global_rules st),
        private_rules_no_dep := by_rule_id (private_rules_no_dep st),
        rules_no_dep := by_rule_id (rules_no_dep st),
        private_rules_dep := by_rule_id (private_rules_dep st),
        rules_dep := by_rule_id (rules_dep st)\<rparr>"

section \<open>Dependency resolution\<close>

text \<open>\<^verbatim>\<open>name_map.get(d, False)\<close>\<close>

definition lookup :: "name_map \<Rightarrow> string \<Rightarrow> bool" where
  "lookup nm d = (case nm (Some d) of None \<Rightarrow> False | Some b \<Rightarrow> b)"

text \<open>
  The inner loop \<^verbatim>\<open>for d in r['depends']\<close>: \<^verbatim>\<open>found\<close> becomes true at the first
  dependency that \<^verbatim>\<open>name_map\<close> does not hold.
\<close>

definition found :: "name_map \<Rightarrow> signature \<Rightarrow> bool" where
  "found nm r = list_ex (\<lambda>d. \<not> lookup nm d) (depends_list r)"

text \<open>
  The scan \<^verbatim>\<open>for r in private_rules_dep\<close> (lines 319-328), the same text as
  \<^verbatim>\<open>for r in rules_dep\<close> (lines 346-355). It carries \<^verbatim>\<open>name_map\<close>,
  \<^verbatim>\<open>signature_list\<close> and the new list of records kept for the next round.
\<close>

fun scan :: "signature list \<Rightarrow> name_map \<times> signature list \<times> signature list
    \<Rightarrow> name_map \<times> signature list \<times> signature list" where
  "scan [] acc = acc"
| "scan (r # rs) (nm, sl, new_dep) =
     (if found nm r then scan rs (nm, sl, new_dep @ [r])
      else scan rs (nm(name r \<mapsto> True), sl @ [r], new_dep))"

text \<open>\<^verbatim>\<open>for s in rules: name_map[s['name']] = True\<close>\<close>

definition mark :: "signature list \<Rightarrow> name_map \<Rightarrow> name_map" where
  "mark rules nm = fold (\<lambda>s m. m(name s \<mapsto> True)) rules nm"

text \<open>The body of \<^verbatim>\<open>while private_rules_dep:\<close> (lines 318-341).\<close>

definition private_round :: "bool \<Rightarrow> sorter \<Rightarrow> sorter" where
  "private_round safe st =
     (case scan (private_rules_dep st) (name_map st, signature_list st, []) of
        (nm, sl, new_private_rules_dep) \<Rightarrow>
          if private_rules_dep st = new_private_rules_dep then
            st\<lparr>error_rules :=
                 error_rules st @
                 concat (map (\<lambda>x. map Some (depends_list x)) (private_rules_dep st)),
               name_map := (if \<not> safe then mark (private_rules_dep st) nm else nm),
               signature_list := (if \<not> safe then sl @ private_rules_dep st else sl),
               private_rules_dep := []\<rparr>
          else
            st\<lparr>name_map := nm, signature_list := sl,
               private_rules_dep := new_private_rules_dep\<rparr>)"

text \<open>The body of \<^verbatim>\<open>while rules_dep:\<close> (lines 345-366).\<close>

definition rules_round :: "bool \<Rightarrow> sorter \<Rightarrow> sorter" where
  "rules_round safe st =
     (case scan (rules_dep st) (name_map st, signature_list st, []) of
        (nm, sl, new_rules_dep) \<Rightarrow>
          if rules_dep st = new_rules_dep then
            st\<lparr>error_rules := error_rules st @ map name (rules_dep st),
               name_map := (if \<not> safe then mark (rules_dep st) nm else nm),
               signature_list := (if \<not> safe then sl @ rules_dep st else sl),
               rules_dep := []\<rparr>
          else
            st\<lparr>name_map := nm, signature_list := sl, rules_dep := new_rules_dep\<rparr>)"

text \<open>
  The value of \<^verbatim>\<open>new_private_rules_dep\<close> (of \<^verbatim>\<open>new_rules_dep\<close>) when the scan of a round
  ends: the round makes no progress when it equals the list scanned, which is the test
  \<^verbatim>\<open>private_rules_dep == new_private_rules_dep\<close> (\<^verbatim>\<open>rules_dep == new_rules_dep\<close>).
\<close>

definition new_private_rules_dep :: "sorter \<Rightarrow> signature list" where
  "new_private_rules_dep st =
     snd (snd (scan (private_rules_dep st) (name_map st, signature_list st, [])))"

definition new_rules_dep :: "sorter \<Rightarrow> signature list" where
  "new_rules_dep st = snd (snd (scan (rules_dep st) (name_map st, signature_list st, [])))"

section \<open>The resolved names and the scan\<close>

text \<open>
  The names that \<^const>\<open>lookup\<close> answers true for. Every store into \<^verbatim>\<open>name_map\<close>
  writes \<^verbatim>\<open>True\<close>, so a store adds its key to this set.
\<close>

definition resolved_names :: "name_map \<Rightarrow> string option set" where
  "resolved_names nm = {k. nm k = Some True}"

text \<open>
  A list of records is placed in dependency order over a set of names when each record's
  dependency names are all in the set extended by the names of the records before it.
\<close>

fun placed_ok :: "string option set \<Rightarrow> signature list \<Rightarrow> bool" where
  "placed_ok S [] = True"
| "placed_ok S (r # rs) =
     ((\<forall>d\<in>set (depends_list r). Some d \<in> S) \<and> placed_ok (insert (name r) S) rs)"

lemma lookup_resolved: "lookup nm d \<longleftrightarrow> Some d \<in> resolved_names nm"
  by (auto simp: lookup_def resolved_names_def split: option.splits)

lemma resolved_names_upd [simp]:
  "resolved_names (nm(k \<mapsto> True)) = insert k (resolved_names nm)"
  by (auto simp: resolved_names_def)

lemma resolved_names_empty [simp]: "resolved_names Map.empty = {}"
  by (simp add: resolved_names_def)

lemma mark_Nil [simp]: "mark [] nm = nm"
  by (simp add: mark_def)

lemma mark_Cons [simp]: "mark (r # rs) nm = mark rs (nm(name r \<mapsto> True))"
  by (simp add: mark_def)

lemma mark_append [simp]: "mark (xs @ ys) nm = mark ys (mark xs nm)"
  by (simp add: mark_def)

lemma resolved_names_mark [simp]:
  "resolved_names (mark rs nm) = resolved_names nm \<union> name ` set rs"
  by (induction rs arbitrary: nm) auto

lemma found_iff:
  "found nm r \<longleftrightarrow> (\<exists>d\<in>set (depends_list r). Some d \<notin> resolved_names nm)"
  by (auto simp: found_def list_ex_iff lookup_resolved)

lemma placed_ok_append:
  "placed_ok S (xs @ ys) \<longleftrightarrow> placed_ok S xs \<and> placed_ok (S \<union> name ` set xs) ys"
  by (induction xs arbitrary: S) auto

lemma placed_ok_split:
  assumes "placed_ok S (xs @ r # ys)" and "d \<in> set (depends_list r)"
  shows "Some d \<in> S \<union> name ` set xs"
  using assms by (simp add: placed_ok_append)

text \<open>
  What one scan does: the records placed, \<open>p\<close>, go to the end of the bundle in dependency
  order and their names into \<^verbatim>\<open>name_map\<close>; the records kept, \<open>q\<close>, are a subsequence of
  the input and each of them lacks a dependency.
\<close>

lemma scan_result:
  "\<exists>p q. scan rs (nm, sl, new_dep) = (mark p nm, sl @ p, new_dep @ q)
       \<and> mset p + mset q = mset rs \<and> subseq q rs
       \<and> placed_ok (resolved_names nm) p \<and> (\<forall>x\<in>set q. found nm x)"
proof (induction rs arbitrary: nm sl new_dep)
  case Nil
  show ?case by (rule exI [of _ "[]"], rule exI [of _ "[]"]) simp
next
  case (Cons r rs)
  show ?case
  proof (cases "found nm r")
    case True
    from Cons.IH [of nm sl "new_dep @ [r]"] obtain p q where
      h: "scan rs (nm, sl, new_dep @ [r]) = (mark p nm, sl @ p, (new_dep @ [r]) @ q)"
         "mset p + mset q = mset rs" "subseq q rs"
         "placed_ok (resolved_names nm) p" "\<forall>x\<in>set q. found nm x"
      by blast
    show ?thesis
      by (rule exI [of _ p], rule exI [of _ "r # q"]) (use True h in simp)
  next
    case False
    let ?nm = "nm(name r \<mapsto> True)"
    from Cons.IH [of ?nm "sl @ [r]" new_dep] obtain p q where
      h: "scan rs (?nm, sl @ [r], new_dep) = (mark p ?nm, (sl @ [r]) @ p, new_dep @ q)"
         "mset p + mset q = mset rs" "subseq q rs"
         "placed_ok (resolved_names ?nm) p" "\<forall>x\<in>set q. found ?nm x"
      by blast
    have "\<forall>x\<in>set q. found nm x"
      using h(5) by (auto simp: found_iff)
    then show ?thesis
      by (intro exI [of _ "r # p"] exI [of _ q]) (use False h in \<open>auto simp: found_iff\<close>)
  qed
qed

text \<open>A scan that keeps everything has placed nothing, and the other way round.\<close>

lemma kept_all_iff:
  assumes "mset p + mset q = mset rs" and "subseq q rs"
  shows "rs = q \<longleftrightarrow> p = []"
proof
  assume "rs = q"
  with assms(1) show "p = []" by simp
next
  assume "p = []"
  with assms(1) have "length q = length rs"
    by (metis add_cancel_left_left mset_eq_length mset_zero_iff)
  with assms(2) show "rs = q"
    using subseq_same_length [of q rs] by simp
qed

lemma kept_shorter:
  assumes "mset p + mset q = mset rs" and "p \<noteq> []"
  shows "length q < length rs"
proof -
  have "length p + length q = length rs"
    using assms(1) by (metis size_mset size_union)
  with assms(2) show ?thesis by (cases p) auto
qed

section \<open>The private pass\<close>

text \<open>
  A round either stalls (the scan placed nothing: every record lacks a dependency) or
  makes progress (it placed \<open>p\<close>, not empty, and keeps \<open>q\<close>).
\<close>

lemma private_round_cases:
  obtains (stall)
    "\<forall>x\<in>set (private_rules_dep st). found (name_map st) x"
    "private_round safe st =
       st\<lparr>error_rules := error_rules st @
              concat (map (\<lambda>x. map Some (depends_list x)) (private_rules_dep st)),
          name_map := (if \<not> safe then mark (private_rules_dep st) (name_map st) else name_map st),
          signature_list :=
            (if \<not> safe then signature_list st @ private_rules_dep st else signature_list st),
          private_rules_dep := []\<rparr>"
  | (progress) p q where
    "p \<noteq> []" "mset p + mset q = mset (private_rules_dep st)"
    "placed_ok (resolved_names (name_map st)) p"
    "private_round safe st =
       st\<lparr>name_map := mark p (name_map st), signature_list := signature_list st @ p,
          private_rules_dep := q\<rparr>"
proof -
  from scan_result [of "private_rules_dep st" "name_map st" "signature_list st" "[]"]
  obtain p q where
    h: "scan (private_rules_dep st) (name_map st, signature_list st, []) =
          (mark p (name_map st), signature_list st @ p, q)"
       "mset p + mset q = mset (private_rules_dep st)" "subseq q (private_rules_dep st)"
       "placed_ok (resolved_names (name_map st)) p" "\<forall>x\<in>set q. found (name_map st) x"
    by auto
  show thesis
  proof (cases "p = []")
    case True
    with h(2,3) have "private_rules_dep st = q"
      using kept_all_iff [of p q "private_rules_dep st"] by blast
    with True h(1,5) show thesis
      by (intro stall) (simp_all add: private_round_def)
  next
    case False
    with h(2,3) have "private_rules_dep st \<noteq> q"
      using kept_all_iff [of p q "private_rules_dep st"] by blast
    with False h show thesis
      by (intro progress [of p q]) (simp_all add: private_round_def)
  qed
qed

lemma private_round_shrinks:
  assumes "private_rules_dep st \<noteq> []"
  shows "length (private_rules_dep (private_round safe st)) < length (private_rules_dep st)"
proof (cases rule: private_round_cases [of st safe])
  case stall
  with assms show ?thesis by simp
next
  case (progress p q)
  then show ?thesis by (simp add: kept_shorter)
qed

text \<open>\<^verbatim>\<open>while private_rules_dep:\<close> (lines 317-341).\<close>

function private_loop :: "bool \<Rightarrow> sorter \<Rightarrow> sorter" where
  "private_loop safe st =
     (if private_rules_dep st = [] then st else private_loop safe (private_round safe st))"
  by pat_completeness auto
termination
proof (relation "measure (\<lambda>(safe, st). length (private_rules_dep st))")
  show "wf (measure (\<lambda>(safe, st). length (private_rules_dep st)))"
    by (rule wf_measure)
next
  fix safe and st :: sorter
  assume "private_rules_dep st \<noteq> []"
  then have "length (private_rules_dep (private_round safe st)) < length (private_rules_dep st)"
    by (rule private_round_shrinks)
  then show "((safe, private_round safe st), safe, st)
      \<in> measure (\<lambda>(safe, st). length (private_rules_dep st))"
    by (simp only: in_measure prod.case)
qed

declare private_loop.simps [simp del]

lemma private_loop_done: "private_rules_dep st = [] \<Longrightarrow> private_loop safe st = st"
  by (simp add: private_loop.simps)

lemma private_loop_step:
  "private_rules_dep st \<noteq> [] \<Longrightarrow> private_loop safe st = private_loop safe (private_round safe st)"
  by (subst private_loop.simps) simp


lemma private_loop_result:
  "\<exists>p q. private_loop safe st =
       st\<lparr>error_rules := error_rules st @ concat (map (\<lambda>x. map Some (depends_list x)) q),
          name_map := mark (p @ (if \<not> safe then q else [])) (name_map st),
          signature_list := signature_list st @ p @ (if \<not> safe then q else []),
          private_rules_dep := []\<rparr>
     \<and> mset p + mset q = mset (private_rules_dep st)
     \<and> placed_ok (resolved_names (name_map st)) p
     \<and> (\<forall>x\<in>set q. found (mark p (name_map st)) x)"
proof (induction safe st rule: private_loop.induct)
  case (1 safe st)
  show ?case
  proof (cases "private_rules_dep st = []")
    case True
    show ?thesis
      by (rule exI [of _ "[]"], rule exI [of _ "[]"])
         (simp add: True private_loop_done)
  next
    case False
    note step = private_loop_step [OF False, of safe]
    show ?thesis
    proof (cases rule: private_round_cases [of st safe])
      case stall
      have "private_loop safe st = private_round safe st"
        by (simp add: step stall(2) private_loop_done)
      with stall show ?thesis
        by (intro exI [of _ "[]"] exI [of _ "private_rules_dep st"]) simp
    next
      case (progress p1 q1)
      let ?st1 = "private_round safe st"
      from "1.IH" [OF False] obtain p2 q2 where
        h: "private_loop safe ?st1 =
              ?st1\<lparr>error_rules := error_rules ?st1 @ concat (map (\<lambda>x. map Some (depends_list x)) q2),
                 name_map := mark (p2 @ (if \<not> safe then q2 else [])) (name_map ?st1),
                 signature_list := signature_list ?st1 @ p2 @ (if \<not> safe then q2 else []),
                 private_rules_dep := []\<rparr>"
           "mset p2 + mset q2 = mset (private_rules_dep ?st1)"
           "placed_ok (resolved_names (name_map ?st1)) p2"
           "\<forall>x\<in>set q2. found (mark p2 (name_map ?st1)) x"
        by blast
      have 1: "private_loop safe st =
         st\<lparr>error_rules := error_rules st @ concat (map (\<lambda>x. map Some (depends_list x)) q2),
          name_map := mark ((p1 @ p2) @ (if \<not> safe then q2 else [])) (name_map st),
          signature_list := signature_list st @ (p1 @ p2) @ (if \<not> safe then q2 else []),
          private_rules_dep := []\<rparr>"
        unfolding step h(1) by (simp add: progress(4))
      have 2: "mset (p1 @ p2) + mset q2 = mset (private_rules_dep st)"
        using h(2) progress(2) by (simp add: progress(4) ac_simps)
      have 3: "placed_ok (resolved_names (name_map st)) (p1 @ p2)"
        using h(3) progress(3) by (simp add: progress(4) placed_ok_append)
      have 4: "\<forall>x\<in>set q2. found (mark (p1 @ p2) (name_map st)) x"
        using h(4) by (simp add: progress(4))
      from 1 2 3 4 show ?thesis by blast
    qed
  qed
qed

lemma private_round_stall:
  assumes "private_rules_dep st = new_private_rules_dep st"
  shows "private_round safe st =
       st\<lparr>error_rules := error_rules st @
              concat (map (\<lambda>x. map Some (depends_list x)) (private_rules_dep st)),
          name_map := (if \<not> safe then mark (private_rules_dep st) (name_map st) else name_map st),
          signature_list :=
            (if \<not> safe then signature_list st @ private_rules_dep st else signature_list st),
          private_rules_dep := []\<rparr>"
proof -
  from scan_result [of "private_rules_dep st" "name_map st" "signature_list st" "[]"]
  obtain p q where
    h: "scan (private_rules_dep st) (name_map st, signature_list st, []) =
          (mark p (name_map st), signature_list st @ p, [] @ q)"
       "mset p + mset q = mset (private_rules_dep st)"
    by blast
  have q: "q = private_rules_dep st"
    using assms h(1) unfolding new_private_rules_dep_def by simp
  with h(2) have "p = []"
    by simp
  with h(1) q show ?thesis
    unfolding private_round_def by simp
qed

lemma private_while:
  "while_option (\<lambda>s. private_rules_dep s \<noteq> []) (private_round safe) st =
     Some (private_loop safe st)"
proof (induction safe st rule: private_loop.induct)
  case (1 safe st)
  show ?case
  proof (cases "private_rules_dep st = []")
    case True
    then show ?thesis
      by (subst while_option_unfold) (simp add: private_loop_done)
  next
    case False
    with "1.IH" show ?thesis
      by (subst while_option_unfold) (simp add: private_loop_step)
  qed
qed

lemma private_loop_empties: "private_rules_dep (private_loop safe st) = []"
  using private_loop_result [of safe st] by auto

section \<open>The general pass\<close>

lemma rules_round_cases:
  obtains (stall)
    "\<forall>x\<in>set (rules_dep st). found (name_map st) x"
    "rules_round safe st =
       st\<lparr>error_rules := error_rules st @ map name (rules_dep st),
          name_map := (if \<not> safe then mark (rules_dep st) (name_map st) else name_map st),
          signature_list :=
            (if \<not> safe then signature_list st @ rules_dep st else signature_list st),
          rules_dep := []\<rparr>"
  | (progress) p q where
    "p \<noteq> []" "mset p + mset q = mset (rules_dep st)"
    "placed_ok (resolved_names (name_map st)) p"
    "rules_round safe st =
       st\<lparr>name_map := mark p (name_map st), signature_list := signature_list st @ p,
          rules_dep := q\<rparr>"
proof -
  from scan_result [of "rules_dep st" "name_map st" "signature_list st" "[]"]
  obtain p q where
    h: "scan (rules_dep st) (name_map st, signature_list st, []) =
          (mark p (name_map st), signature_list st @ p, q)"
       "mset p + mset q = mset (rules_dep st)" "subseq q (rules_dep st)"
       "placed_ok (resolved_names (name_map st)) p" "\<forall>x\<in>set q. found (name_map st) x"
    by auto
  show thesis
  proof (cases "p = []")
    case True
    with h(2,3) have "rules_dep st = q"
      using kept_all_iff [of p q "rules_dep st"] by blast
    with True h(1,5) show thesis
      by (intro stall) (simp_all add: rules_round_def)
  next
    case False
    with h(2,3) have "rules_dep st \<noteq> q"
      using kept_all_iff [of p q "rules_dep st"] by blast
    with False h show thesis
      by (intro progress [of p q]) (simp_all add: rules_round_def)
  qed
qed

lemma rules_round_shrinks:
  assumes "rules_dep st \<noteq> []"
  shows "length (rules_dep (rules_round safe st)) < length (rules_dep st)"
proof (cases rule: rules_round_cases [of st safe])
  case stall
  with assms show ?thesis by simp
next
  case (progress p q)
  then show ?thesis by (simp add: kept_shorter)
qed

text \<open>\<^verbatim>\<open>while rules_dep:\<close> (lines 344-366).\<close>

function rules_loop :: "bool \<Rightarrow> sorter \<Rightarrow> sorter" where
  "rules_loop safe st =
     (if rules_dep st = [] then st else rules_loop safe (rules_round safe st))"
  by pat_completeness auto
termination
proof (relation "measure (\<lambda>(safe, st). length (rules_dep st))")
  show "wf (measure (\<lambda>(safe, st). length (rules_dep st)))"
    by (rule wf_measure)
next
  fix safe and st :: sorter
  assume "rules_dep st \<noteq> []"
  then have "length (rules_dep (rules_round safe st)) < length (rules_dep st)"
    by (rule rules_round_shrinks)
  then show "((safe, rules_round safe st), safe, st)
      \<in> measure (\<lambda>(safe, st). length (rules_dep st))"
    by (simp only: in_measure prod.case)
qed

declare rules_loop.simps [simp del]

lemma rules_loop_done: "rules_dep st = [] \<Longrightarrow> rules_loop safe st = st"
  by (simp add: rules_loop.simps)

lemma rules_loop_step:
  "rules_dep st \<noteq> [] \<Longrightarrow> rules_loop safe st = rules_loop safe (rules_round safe st)"
  by (subst rules_loop.simps) simp


lemma rules_loop_result:
  "\<exists>p q. rules_loop safe st =
       st\<lparr>error_rules := error_rules st @ map name q,
          name_map := mark (p @ (if \<not> safe then q else [])) (name_map st),
          signature_list := signature_list st @ p @ (if \<not> safe then q else []),
          rules_dep := []\<rparr>
     \<and> mset p + mset q = mset (rules_dep st)
     \<and> placed_ok (resolved_names (name_map st)) p
     \<and> (\<forall>x\<in>set q. found (mark p (name_map st)) x)"
proof (induction safe st rule: rules_loop.induct)
  case (1 safe st)
  show ?case
  proof (cases "rules_dep st = []")
    case True
    show ?thesis
      by (rule exI [of _ "[]"], rule exI [of _ "[]"])
         (simp add: True rules_loop_done)
  next
    case False
    note step = rules_loop_step [OF False, of safe]
    show ?thesis
    proof (cases rule: rules_round_cases [of st safe])
      case stall
      have "rules_loop safe st = rules_round safe st"
        by (simp add: step stall(2) rules_loop_done)
      with stall show ?thesis
        by (intro exI [of _ "[]"] exI [of _ "rules_dep st"]) simp
    next
      case (progress p1 q1)
      let ?st1 = "rules_round safe st"
      from "1.IH" [OF False] obtain p2 q2 where
        h: "rules_loop safe ?st1 =
              ?st1\<lparr>error_rules := error_rules ?st1 @ map name q2,
                 name_map := mark (p2 @ (if \<not> safe then q2 else [])) (name_map ?st1),
                 signature_list := signature_list ?st1 @ p2 @ (if \<not> safe then q2 else []),
                 rules_dep := []\<rparr>"
           "mset p2 + mset q2 = mset (rules_dep ?st1)"
           "placed_ok (resolved_names (name_map ?st1)) p2"
           "\<forall>x\<in>set q2. found (mark p2 (name_map ?st1)) x"
        by blast
      have 1: "rules_loop safe st =
         st\<lparr>error_rules := error_rules st @ map name q2,
          name_map := mark ((p1 @ p2) @ (if \<not> safe then q2 else [])) (name_map st),
          signature_list := signature_list st @ (p1 @ p2) @ (if \<not> safe then q2 else []),
          rules_dep := []\<rparr>"
        unfolding step h(1) by (simp add: progress(4))
      have 2: "mset (p1 @ p2) + mset q2 = mset (rules_dep st)"
        using h(2) progress(2) by (simp add: progress(4) ac_simps)
      have 3: "placed_ok (resolved_names (name_map st)) (p1 @ p2)"
        using h(3) progress(3) by (simp add: progress(4) placed_ok_append)
      have 4: "\<forall>x\<in>set q2. found (mark (p1 @ p2) (name_map st)) x"
        using h(4) by (simp add: progress(4))
      from 1 2 3 4 show ?thesis by blast
    qed
  qed
qed

lemma rules_round_stall:
  assumes "rules_dep st = new_rules_dep st"
  shows "rules_round safe st =
       st\<lparr>error_rules := error_rules st @ map name (rules_dep st),
          name_map := (if \<not> safe then mark (rules_dep st) (name_map st) else name_map st),
          signature_list :=
            (if \<not> safe then signature_list st @ rules_dep st else signature_list st),
          rules_dep := []\<rparr>"
proof -
  from scan_result [of "rules_dep st" "name_map st" "signature_list st" "[]"]
  obtain p q where
    h: "scan (rules_dep st) (name_map st, signature_list st, []) =
          (mark p (name_map st), signature_list st @ p, [] @ q)"
       "mset p + mset q = mset (rules_dep st)"
    by blast
  have q: "q = rules_dep st"
    using assms h(1) unfolding new_rules_dep_def by simp
  with h(2) have "p = []"
    by simp
  with h(1) q show ?thesis
    unfolding rules_round_def by simp
qed

lemma rules_while:
  "while_option (\<lambda>s. rules_dep s \<noteq> []) (rules_round safe) st =
     Some (rules_loop safe st)"
proof (induction safe st rule: rules_loop.induct)
  case (1 safe st)
  show ?case
  proof (cases "rules_dep st = []")
    case True
    then show ?thesis
      by (subst while_option_unfold) (simp add: rules_loop_done)
  next
    case False
    with "1.IH" show ?thesis
      by (subst while_option_unfold) (simp add: rules_loop_step)
  qed
qed

lemma rules_loop_empties: "rules_dep (rules_loop safe st) = []"
  using rules_loop_result [of safe st] by auto

section \<open>The whole sort\<close>

text \<open>
  Lines 273-290: in safe mode the fetched list is replaced by \<^verbatim>\<open>rules_map.values()\<close>;
  otherwise it is used as it is and \<^verbatim>\<open>duplicate_rules\<close> stays empty.
\<close>

definition select :: "bool \<Rightarrow> signature list \<Rightarrow> signature list \<times> string list" where
  "select safe fetched =
     (if safe then
        (case dedup fetched of (rules_map, dups) \<Rightarrow> (map snd rules_map, dups))
      else (fetched, []))"

text \<open>Lines 292-314: the partition loop, then the five sorts.\<close>

definition partitioned :: "bool \<Rightarrow> signature list \<Rightarrow> sorter" where
  "partitioned safe fetched =
     (case select safe fetched of
        (sl, dups) \<Rightarrow> sort_buckets (foldl partition_step (init dups) sl))"

text \<open>Line 316: \<^verbatim>\<open>signature_list = global_rules + private_rules_no_dep\<close>.\<close>

definition private_start :: "bool \<Rightarrow> signature list \<Rightarrow> sorter" where
  "private_start safe fetched =
     (let st = partitioned safe fetched
      in st\<lparr>signature_list := global_rules st @ private_rules_no_dep st\<rparr>)"

text \<open>Line 343: \<^verbatim>\<open>signature_list += rules_no_dep\<close>, after the private loop.\<close>

definition rules_start :: "bool \<Rightarrow> signature list \<Rightarrow> sorter" where
  "rules_start safe fetched =
     (let st = private_loop safe (private_start safe fetched)
      in st\<lparr>signature_list := signature_list st @ rules_no_dep st\<rparr>)"

text \<open>The state at \<^verbatim>\<open># End of sort\<close>.\<close>

definition sort_rules :: "bool \<Rightarrow> signature list \<Rightarrow> sorter" where
  "sort_rules safe fetched = rules_loop safe (rules_start safe fetched)"

section \<open>Header, cache and response\<close>

definition nl :: string where
  "nl = [CHR 0x0A]"

definition tab :: string where
  "tab = [CHR 0x09]"

text \<open>\<^verbatim>\<open>sep.join(xs)\<close>\<close>

fun join :: "string \<Rightarrow> string list \<Rightarrow> string" where
  "join sep [] = []"
| "join sep [x] = x"
| "join sep (x # y # ys) = x @ sep @ join sep (y # ys)"

datatype error = TypeError

text \<open>
  \<^verbatim>\<open>"\n//\t".join(error_rules)\<close>: \<^verbatim>\<open>str.join\<close> raises \<^verbatim>\<open>TypeError\<close> at an item that
  is not a string, here a \<^verbatim>\<open>None\<close> name.
\<close>

fun strings :: "string option list \<Rightarrow> error + string list" where
  "strings [] = Inr []"
| "strings (None # xs) = Inl TypeError"
| "strings (Some x # xs) = (case strings xs of Inl e \<Rightarrow> Inl e | Inr ys \<Rightarrow> Inr (x # ys))"

text \<open>The two \<^verbatim>\<open>dedent(...).format(...)\<close> blocks of lines 375-393.\<close>

definition duplicates_block :: "bool \<Rightarrow> string list \<Rightarrow> string" where
  "duplicates_block safe dups =
     nl @ ''// [ERROR] Duplicates rules '' @ (if safe then ''were skipped'' else ''exist'')
     @ '':'' @ nl @ ''//'' @ nl @ ''//'' @ tab @ join (nl @ ''//'' @ tab) dups @ nl
     @ ''//'' @ nl"

definition missing_block :: "bool \<Rightarrow> string list \<Rightarrow> string" where
  "missing_block safe errs =
     nl @ ''// [ERROR] Some rules '' @ (if safe then ''were skipped due to'' else ''are'')
     @ '' missing dependencies:'' @ nl @ ''//'' @ nl @ ''//'' @ tab
     @ join (nl @ ''//'' @ tab) errs @ nl @ ''//'' @ nl"

text \<open>Lines 369-393: the variable \<^verbatim>\<open>error\<close>.\<close>

definition error_text :: "bool \<Rightarrow> sorter \<Rightarrow> error + string" where
  "error_text safe st =
     (let error = (if duplicate_rules st \<noteq> [] then duplicates_block safe (duplicate_rules st)
                   else [])
      in if error_rules st \<noteq> [] then
           (case strings (error_rules st) of
              Inl e \<Rightarrow> Inl e
            | Inr errs \<Rightarrow> Inr (error @ missing_block safe errs))
         else Inr error)"

text \<open>Lines 396-405: the header.\<close>

definition header :: "string \<Rightarrow> string \<Rightarrow> string \<Rightarrow> string \<Rightarrow> string" where
  "header query error last_modified query_hash =
     ''// Signatures last updated: '' @ last_modified @ nl
     @ ''// Yara file unique identifier: '' @ query_hash @ nl
     @ ''// Query executed to find signatures:'' @ nl
     @ ''//'' @ nl
     @ ''//'' @ tab @ query @ nl
     @ ''// '' @ error @ nl
     @ ''// Number of rules in file:'' @ nl
     @ ''//'' @ nl"

text \<open>
  \<^verbatim>\<open>make_file_response(data, name, size, content_type)\<close> of \<^verbatim>\<open>al_ui.api.base\<close> is
  not among the sources; the response is taken to be the value of its four arguments.
\<close>

datatype response = make_file_response string string nat string

text \<open>
  Modelled from the spec: the cache store of \<^verbatim>\<open>forge.get_cachestore()\<close> is not among the
  sources. The spec gives it the contract \<^verbatim>\<open>get(fingerprint) -> bytes|absent\<close>,
  \<^verbatim>\<open>put(fingerprint, bytes)\<close>: a map from fingerprints to documents.
\<close>

type_synonym cachestore = "string \<rightharpoonup> string"

definition get_cached_signatures :: "cachestore \<Rightarrow> string \<Rightarrow> response option" where
  "get_cached_signatures signature_cache query_hash =
     (case signature_cache query_hash of
        None \<Rightarrow> None
      | Some s \<Rightarrow>
          Some (make_file_response s
                  (''al_yara_signatures_'' @ take 7 query_hash @ ''.yar'') (length s)
                  ''text/yara''))"

text \<open>
  The parts of the environment that \<^verbatim>\<open>download_signatures\<close> calls: the digest
  \<^verbatim>\<open>sha256(...).hexdigest()\<close>, \<^verbatim>\<open>YaraParser().dump_rule_file\<close>, and the datastore
  (\<^verbatim>\<open>get_signature_last_modified()\<close>, and \<^verbatim>\<open>search\<close> followed by \<^verbatim>\<open>multiget\<close>).
\<close>

record env =
  sha256_hexdigest :: "string \<Rightarrow> string"
  dump_rule_file :: "signature list \<Rightarrow> string"
  last_modified :: string
  search :: "string \<Rightarrow> string \<Rightarrow> signature list"

text \<open>
  Lines 242, 243 and 248 on their own: the query text and the safe flag read from the
  request arguments, and the fingerprint \<^verbatim>\<open>query_hash\<close>.
\<close>

definition request_query :: "string option \<Rightarrow> string" where
  "request_query query_arg =
     (case query_arg of None \<Rightarrow> ''meta.al_status:DEPLOYED'' | Some q \<Rightarrow> q)"

definition request_safe :: "string option \<Rightarrow> bool" where
  "request_safe safe_arg = ((case safe_arg of None \<Rightarrow> ''false'' | Some v \<Rightarrow> v) = ''true'')"

definition fingerprint :: "env \<Rightarrow> string \<Rightarrow> string \<Rightarrow> string" where
  "fingerprint e query access =
     sha256_hexdigest e (query @ ''.'' @ access @ ''.'' @ last_modified e)"

text \<open>
  \<^verbatim>\<open>download_signatures\<close> (lines 241-415). The arguments are the two request
  arguments, absent or a string, and the user's \<^verbatim>\<open>access_control\<close>; the result is the
  response, or the exception raised, and the cache store afterwards. The cache is read
  twice, before and after the lock is taken; the lock serialises requests and changes
  nothing in a single one. A response object is always true, so \<^verbatim>\<open>if response:\<close>
  asks whether the cache held an entry. A cache read that raises is logged and counts as
  a miss (lines 214-217); the map has no such read.
\<close>

definition download_signatures ::
  "env \<Rightarrow> cachestore \<Rightarrow> string option \<Rightarrow> string option \<Rightarrow> string
    \<Rightarrow> (error + response) \<times> cachestore" where
  "download_signatures e signature_cache query_arg safe_arg access =
     (let query = (case query_arg of None \<Rightarrow> ''meta.al_status:DEPLOYED'' | Some q \<Rightarrow> q);
          safe = ((case safe_arg of None \<Rightarrow> ''false'' | Some v \<Rightarrow> v) = ''true'');
          query_hash =
            sha256_hexdigest e (query @ ''.'' @ access @ ''.'' @ last_modified e)
      in case get_cached_signatures signature_cache query_hash of
           Some response \<Rightarrow> (Inr response, signature_cache)
         | None \<Rightarrow>
             (case get_cached_signatures signature_cache query_hash of
                Some response \<Rightarrow> (Inr response, signature_cache)
              | None \<Rightarrow>
                  (let st = sort_rules safe (search e query access)
                   in case error_text safe st of
                        Inl err \<Rightarrow> (Inl err, signature_cache)
                      | Inr error \<Rightarrow>
                          (let rule_file_bin =
                                 header query error (last_modified e) query_hash
                                 @ dump_rule_file e (signature_list st)
                           in (Inr (make_file_response rule_file_bin
                                      (''al_yara_signatures_'' @ take 7 query_hash @ ''.yar'')
                                      (length rule_file_bin) ''text/yara''),
                               signature_cache(query_hash \<mapsto> rule_file_bin))))))"

section \<open>Facts about the whole sort\<close>

text \<open>The partition loop fills each bucket with the records of its kind, in order.\<close>

lemma partition_fold:
  "foldl partition_step st sl =
     st\<lparr>global_rules := global_rules st @ filter is_global sl,
        private_rules_no_dep := private_rules_no_dep st @
          filter (\<lambda>s. \<not> is_global s \<and> is_private s \<and> no_depends s) sl,
        private_rules_dep := private_rules_dep st @
          filter (\<lambda>s. \<not> is_global s \<and> is_private s \<and> \<not> no_depends s) sl,
        rules_no_dep := rules_no_dep st @
          filter (\<lambda>s. \<not> is_global s \<and> \<not> is_private s \<and> no_depends s) sl,
        rules_dep := rules_dep st @
          filter (\<lambda>s. \<not> is_global s \<and> \<not> is_private s \<and> \<not> no_depends s) sl,
        name_map := mark (filter (\<lambda>s. is_global s \<or> no_depends s) sl) (name_map st)\<rparr>"
  by (induction sl arbitrary: st)
     (simp_all add: partition_step_def)

lemma partitioned_eq:
  "partitioned safe fetched =
     \<lparr>duplicate_rules = snd (select safe fetched), error_rules = [],
      global_rules = by_rule_id (filter is_global (fst (select safe fetched))),
      private_rules_no_dep = by_rule_id
        (filter (\<lambda>s. \<not> is_global s \<and> is_private s \<and> no_depends s) (fst (select safe fetched))),
      private_rules_dep = by_rule_id
        (filter (\<lambda>s. \<not> is_global s \<and> is_private s \<and> \<not> no_depends s) (fst (select safe fetched))),
      rules_no_dep = by_rule_id
        (filter (\<lambda>s. \<not> is_global s \<and> \<not> is_private s \<and> no_depends s) (fst (select safe fetched))),
      rules_dep = by_rule_id
        (filter (\<lambda>s. \<not> is_global s \<and> \<not> is_private s \<and> \<not> no_depends s) (fst (select safe fetched))),
      name_map = mark (filter (\<lambda>s. is_global s \<or> no_depends s) (fst (select safe fetched))) Map.empty,
      signature_list = []\<rparr>"
  by (simp add: partitioned_def partition_fold sort_buckets_def init_def split: prod.splits)

lemma set_by_rule_id [simp]: "set (by_rule_id xs) = set xs"
  by (simp add: by_rule_id_def)

lemma mset_by_rule_id [simp]: "mset (by_rule_id xs) = mset xs"
  by (simp add: by_rule_id_def)

lemma seeded_names:
  "resolved_names (name_map (partitioned safe fetched)) =
     name ` set (global_rules (partitioned safe fetched)
                 @ private_rules_no_dep (partitioned safe fetched)
                 @ rules_no_dep (partitioned safe fetched))"
  by (auto simp: partitioned_eq)

lemma sort_rules_result:
  "\<exists>pp ps gp gs.
     sort_rules safe fetched =
       (partitioned safe fetched)
       \<lparr>error_rules := concat (map (\<lambda>x. map Some (depends_list x)) ps) @ map name gs,
        name_map := mark (pp @ (if \<not> safe then ps else []) @ gp @ (if \<not> safe then gs else []))
                      (name_map (partitioned safe fetched)),
        signature_list :=
          global_rules (partitioned safe fetched)
          @ private_rules_no_dep (partitioned safe fetched)
          @ pp @ (if \<not> safe then ps else [])
          @ rules_no_dep (partitioned safe fetched)
          @ gp @ (if \<not> safe then gs else []),
        private_rules_dep := [], rules_dep := []\<rparr>
     \<and> mset pp + mset ps = mset (private_rules_dep (partitioned safe fetched))
     \<and> mset gp + mset gs = mset (rules_dep (partitioned safe fetched))
     \<and> placed_ok (resolved_names (name_map (partitioned safe fetched))) pp
     \<and> (\<forall>x\<in>set ps. found (mark pp (name_map (partitioned safe fetched))) x)
     \<and> placed_ok (resolved_names (name_map (partitioned safe fetched))
                   \<union> name ` set (pp @ (if \<not> safe then ps else []))) gp
     \<and> (\<forall>x\<in>set gs. found (mark (pp @ (if \<not> safe then ps else []) @ gp)
                            (name_map (partitioned safe fetched))) x)"
proof -
  let ?b = "partitioned safe fetched"
  let ?s1 = "private_start safe fetched"
  have b: "error_rules ?b = []" "signature_list ?b = []"
    by (simp_all add: partitioned_eq)
  from private_loop_result [of safe ?s1] obtain pp ps where
    p: "private_loop safe ?s1 =
          ?s1\<lparr>error_rules := error_rules ?s1 @ concat (map (\<lambda>x. map Some (depends_list x)) ps),
              name_map := mark (pp @ (if \<not> safe then ps else [])) (name_map ?s1),
              signature_list := signature_list ?s1 @ pp @ (if \<not> safe then ps else []),
              private_rules_dep := []\<rparr>"
       "mset pp + mset ps = mset (private_rules_dep ?s1)"
       "placed_ok (resolved_names (name_map ?s1)) pp"
       "\<forall>x\<in>set ps. found (mark pp (name_map ?s1)) x"
    by blast
  let ?s2 = "rules_start safe fetched"
  from rules_loop_result [of safe ?s2] obtain gp gs where
    g: "rules_loop safe ?s2 =
          ?s2\<lparr>error_rules := error_rules ?s2 @ map name gs,
              name_map := mark (gp @ (if \<not> safe then gs else [])) (name_map ?s2),
              signature_list := signature_list ?s2 @ gp @ (if \<not> safe then gs else []),
              rules_dep := []\<rparr>"
       "mset gp + mset gs = mset (rules_dep ?s2)"
       "placed_ok (resolved_names (name_map ?s2)) gp"
       "\<forall>x\<in>set gs. found (mark gp (name_map ?s2)) x"
    by blast
  have s1: "?s1 = ?b\<lparr>signature_list := global_rules ?b @ private_rules_no_dep ?b\<rparr>"
    by (simp add: private_start_def Let_def)
  have s2: "?s2 = ?b\<lparr>error_rules := concat (map (\<lambda>x. map Some (depends_list x)) ps),
              name_map := mark (pp @ (if \<not> safe then ps else [])) (name_map ?b),
              signature_list := global_rules ?b @ private_rules_no_dep ?b
                 @ pp @ (if \<not> safe then ps else []) @ rules_no_dep ?b,
              private_rules_dep := []\<rparr>"
    unfolding rules_start_def Let_def p(1) by (simp add: s1 b)
  have 1: "sort_rules safe fetched =
       ?b\<lparr>error_rules := concat (map (\<lambda>x. map Some (depends_list x)) ps) @ map name gs,
        name_map := mark (pp @ (if \<not> safe then ps else []) @ gp @ (if \<not> safe then gs else []))
                      (name_map ?b),
        signature_list :=
          global_rules ?b @ private_rules_no_dep ?b
          @ pp @ (if \<not> safe then ps else [])
          @ rules_no_dep ?b
          @ gp @ (if \<not> safe then gs else []),
        private_rules_dep := [], rules_dep := []\<rparr>"
    unfolding sort_rules_def g(1) by (simp add: s2)
  have 2: "mset pp + mset ps = mset (private_rules_dep ?b)"
    using p(2) by (simp add: s1)
  have 3: "mset gp + mset gs = mset (rules_dep ?b)"
    using g(2) by (simp add: s2)
  have 4: "placed_ok (resolved_names (name_map ?b)) pp"
    using p(3) by (simp add: s1)
  have 5: "\<forall>x\<in>set ps. found (mark pp (name_map ?b)) x"
    using p(4) by (simp add: s1)
  have 6: "placed_ok (resolved_names (name_map ?b)
                   \<union> name ` set (pp @ (if \<not> safe then ps else []))) gp"
    using g(3) by (simp add: s2 image_Un Un_assoc)
  have 7: "\<forall>x\<in>set gs. found (mark (pp @ (if \<not> safe then ps else []) @ gp) (name_map ?b)) x"
    using g(4) by (simp add: s2)
  from 1 2 3 4 5 6 7 show ?thesis by blast
qed

lemma sort_rules_cases:
  obtains pp ps gp gs where
    "signature_list (sort_rules safe fetched) =
       global_rules (partitioned safe fetched) @ private_rules_no_dep (partitioned safe fetched)
       @ pp @ (if \<not> safe then ps else [])
       @ rules_no_dep (partitioned safe fetched) @ gp @ (if \<not> safe then gs else [])"
    "error_rules (sort_rules safe fetched) =
       concat (map (\<lambda>x. map Some (depends_list x)) ps) @ map name gs"
    "mset pp + mset ps = mset (private_rules_dep (partitioned safe fetched))"
    "mset gp + mset gs = mset (rules_dep (partitioned safe fetched))"
    "placed_ok (resolved_names (name_map (partitioned safe fetched))) pp"
    "\<forall>x\<in>set ps. found (mark pp (name_map (partitioned safe fetched))) x"
    "placed_ok (resolved_names (name_map (partitioned safe fetched))
                 \<union> name ` set (pp @ (if \<not> safe then ps else []))) gp"
    "\<forall>x\<in>set gs. found (mark (pp @ (if \<not> safe then ps else []) @ gp)
                          (name_map (partitioned safe fetched))) x"
proof -
  from sort_rules_result [of safe fetched] obtain pp ps gp gs where
    eq: "sort_rules safe fetched =
       (partitioned safe fetched)
       \<lparr>error_rules := concat (map (\<lambda>x. map Some (depends_list x)) ps) @ map name gs,
        name_map := mark (pp @ (if \<not> safe then ps else []) @ gp @ (if \<not> safe then gs else []))
                      (name_map (partitioned safe fetched)),
        signature_list :=
          global_rules (partitioned safe fetched)
          @ private_rules_no_dep (partitioned safe fetched)
          @ pp @ (if \<not> safe then ps else [])
          @ rules_no_dep (partitioned safe fetched)
          @ gp @ (if \<not> safe then gs else []),
        private_rules_dep := [], rules_dep := []\<rparr>"
    and rest:
      "mset pp + mset ps = mset (private_rules_dep (partitioned safe fetched))"
      "mset gp + mset gs = mset (rules_dep (partitioned safe fetched))"
      "placed_ok (resolved_names (name_map (partitioned safe fetched))) pp"
      "\<forall>x\<in>set ps. found (mark pp (name_map (partitioned safe fetched))) x"
      "placed_ok (resolved_names (name_map (partitioned safe fetched))
                   \<union> name ` set (pp @ (if \<not> safe then ps else []))) gp"
      "\<forall>x\<in>set gs. found (mark (pp @ (if \<not> safe then ps else []) @ gp)
                            (name_map (partitioned safe fetched))) x"
    by blast
  have 1: "signature_list (sort_rules safe fetched) =
       global_rules (partitioned safe fetched) @ private_rules_no_dep (partitioned safe fetched)
       @ pp @ (if \<not> safe then ps else [])
       @ rules_no_dep (partitioned safe fetched) @ gp @ (if \<not> safe then gs else [])"
    by (subst eq) simp
  have 2: "error_rules (sort_rules safe fetched) =
       concat (map (\<lambda>x. map Some (depends_list x)) ps) @ map name gs"
    by (subst eq) simp
  from 1 2 rest show thesis by (rule that)
qed

lemma placed_and_stalled:
  assumes "mset p + mset q = mset rs"
  shows "set p \<subseteq> set rs" and "set q \<subseteq> set rs"
proof -
  have "set p \<union> set q = set rs"
    using assms by (metis set_mset_mset set_mset_union)
  then show "set p \<subseteq> set rs" and "set q \<subseteq> set rs" by auto
qed

lemma bundle_parts:
  "set (signature_list (sort_rules safe fetched)) \<subseteq> set (fst (select safe fetched))"
proof -
  let ?b = "partitioned safe fetched"
  obtain pp ps gp gs where
    h: "signature_list (sort_rules safe fetched) =
          global_rules ?b @ private_rules_no_dep ?b @ pp @ (if \<not> safe then ps else [])
          @ rules_no_dep ?b @ gp @ (if \<not> safe then gs else [])"
       "mset pp + mset ps = mset (private_rules_dep ?b)"
       "mset gp + mset gs = mset (rules_dep ?b)"
    by (rule sort_rules_cases [of safe fetched])
  have "set (signature_list (sort_rules safe fetched)) \<subseteq>
      set (global_rules ?b) \<union> set (private_rules_no_dep ?b) \<union> set (private_rules_dep ?b)
      \<union> set (rules_no_dep ?b) \<union> set (rules_dep ?b)"
    unfolding h(1) using placed_and_stalled [OF h(2)] placed_and_stalled [OF h(3)] by auto
  also have "\<dots> \<subseteq> set (fst (select safe fetched))"
    by (auto simp: partitioned_eq)
  finally show ?thesis .
qed

section \<open>Facts about duplicate resolution\<close>

text \<open>A record without a name leaves the duplicate loop's state as it is.\<close>

lemma dedup_step_unnamed:
  "not_name (name s) \<Longrightarrow> dedup_step acc s = acc"
  by (cases acc) (auto simp: not_name_def split: option.splits)

lemma dedup_filter:
  "foldl dedup_step acc (filter (\<lambda>s. \<not> not_name (name s)) sigs) = foldl dedup_step acc sigs"
  by (induction sigs arbitrary: acc) (simp_all add: dedup_step_unnamed)

text \<open>Every holder in \<^verbatim>\<open>rules_map\<close> is stored under its own name, which is not empty.\<close>

definition holders_ok :: "rules_map \<Rightarrow> bool" where
  "holders_ok rm \<longleftrightarrow> (\<forall>(k, s)\<in>set rm. name s = Some k \<and> k \<noteq> [])"

lemma holders_ok_update:
  "holders_ok rm \<Longrightarrow> name s = Some n \<Longrightarrow> n \<noteq> [] \<Longrightarrow> holders_ok (AList.update n s rm)"
  unfolding holders_ok_def by (induction rm) auto

lemma dedup_step_holders:
  "holders_ok (fst acc) \<Longrightarrow> holders_ok (fst (dedup_step acc s))"
  by (cases acc) (auto simp: holders_ok_update split: option.splits)

lemma dedup_fold_holders:
  "holders_ok (fst acc) \<Longrightarrow> holders_ok (fst (foldl dedup_step acc sigs))"
  by (induction sigs arbitrary: acc) (simp_all add: dedup_step_holders)

lemma dedup_holders: "holders_ok (fst (dedup sigs))"
  unfolding dedup_def by (rule dedup_fold_holders) (simp add: holders_ok_def)

lemma dedup_step_dups:
  "\<forall>n\<in>set (snd acc). n \<noteq> [] \<Longrightarrow> \<forall>n\<in>set (snd (dedup_step acc s)). n \<noteq> []"
  by (cases acc) (auto split: option.splits)

lemma dedup_fold_dups:
  "\<forall>n\<in>set (snd acc). n \<noteq> [] \<Longrightarrow> \<forall>n\<in>set (snd (foldl dedup_step acc sigs)). n \<noteq> []"
proof (induction sigs arbitrary: acc)
  case Nil
  then show ?case by simp
next
  case (Cons s sigs)
  from Cons.prems have "\<forall>n\<in>set (snd (dedup_step acc s)). n \<noteq> []"
    by (rule dedup_step_dups)
  from Cons.IH [OF this] show ?case by simp
qed

lemma select_safe_named:
  "s \<in> set (fst (select True fetched)) \<Longrightarrow> \<not> not_name (name s)"
  using dedup_holders [of fetched]
  by (auto simp: select_def holders_ok_def not_name_def split: prod.splits)

lemma select_filter:
  "select True (filter (\<lambda>s. \<not> not_name (name s)) fetched) = select True fetched"
  by (simp add: select_def dedup_def dedup_filter)

text \<open>The holder of a name, one record of the input after the other.\<close>

lemma dedup_snoc: "dedup (sigs @ [s]) = dedup_step (dedup sigs) s"
  by (simp add: dedup_def)

lemma pversion_le: "pversion (Some h) \<le> version h"
  by (simp add: pversion_def version_def split: option.splits)

lemma not_lower_replaces:
  assumes "0 < version s" and "\<not> version s < pversion (Some h)"
  shows "version h \<le> version s"
  using assms by (auto simp: pversion_def version_def split: option.splits)

lemma dedup_step_other:
  assumes "name s \<noteq> Some n"
  shows "map_of (fst (dedup_step acc s)) n = map_of (fst acc) n"
  using assms by (cases acc) (auto simp: update_conv' split: option.splits)

lemma dedup_step_lower:
  assumes "name s = Some n" and "version s < pversion (map_of rm n)"
  shows "fst (dedup_step (rm, dups) s) = rm"
  using assms by (auto split: option.splits)

lemma dedup_step_replaces:
  assumes "name s = Some n" and "n \<noteq> []" and "\<not> version s < pversion (map_of rm n)"
  shows "map_of (fst (dedup_step (rm, dups) s)) n = Some s"
  using assms by (auto simp: update_conv')

lemma dedup_holder:
  assumes "\<forall>s\<in>set sigs. 0 < version s" and "n \<noteq> []"
  shows "(filter (\<lambda>s. name s = Some n) sigs = [] \<longrightarrow> map_of (fst (dedup sigs)) n = None)
     \<and> (filter (\<lambda>s. name s = Some n) sigs \<noteq> [] \<longrightarrow>
          (\<exists>xs h ys. filter (\<lambda>s. name s = Some n) sigs = xs @ h # ys
             \<and> map_of (fst (dedup sigs)) n = Some h
             \<and> (\<forall>s\<in>set xs. version s \<le> version h)
             \<and> (\<forall>s\<in>set ys. version s < version h)))"
  using assms(1)
proof (induction sigs rule: rev_induct)
  case Nil
  show ?case by (simp add: dedup_def)
next
  case (snoc s sigs)
  let ?F = "filter (\<lambda>s. name s = Some n) sigs"
  obtain rm dups where acc: "dedup sigs = (rm, dups)"
    by (cases "dedup sigs")
  from snoc.prems have pos: "0 < version s" and "\<forall>s\<in>set sigs. 0 < version s"
    by simp_all
  with snoc.IH acc have IH:
    "?F = [] \<longrightarrow> map_of rm n = None"
    "?F \<noteq> [] \<longrightarrow> (\<exists>xs h ys. ?F = xs @ h # ys \<and> map_of rm n = Some h
         \<and> (\<forall>s\<in>set xs. version s \<le> version h) \<and> (\<forall>s\<in>set ys. version s < version h))"
    by simp_all
  show ?case
  proof (cases "name s = Some n")
    case False
    then have "map_of (fst (dedup (sigs @ [s]))) n = map_of rm n"
      by (simp add: dedup_snoc dedup_step_other acc del: dedup_step.simps)
    with False IH show ?thesis by simp
  next
    case True
    then have ne: "filter (\<lambda>s. name s = Some n) (sigs @ [s]) \<noteq> []"
      by simp
    show ?thesis
    proof (cases "?F = []")
      case empty: True
      with IH(1) have "map_of rm n = None" by simp
      with pos have "\<not> version s < pversion (map_of rm n)"
        by (simp add: pversion_def)
      with True assms(2) have "map_of (fst (dedup (sigs @ [s]))) n = Some s"
        by (simp add: dedup_snoc acc dedup_step_replaces del: dedup_step.simps)
      with True empty have
        "filter (\<lambda>s. name s = Some n) (sigs @ [s]) = [] @ s # []
         \<and> map_of (fst (dedup (sigs @ [s]))) n = Some s
         \<and> (\<forall>x\<in>set []. version x \<le> version s)
         \<and> (\<forall>x\<in>set []. version x < version s)"
        by simp
      with ne show ?thesis by blast
    next
      case nonempty: False
      with IH(2) obtain xs h ys where
        h: "?F = xs @ h # ys" "map_of rm n = Some h"
           "\<forall>s\<in>set xs. version s \<le> version h" "\<forall>s\<in>set ys. version s < version h"
        by blast
      show ?thesis
      proof (cases "version s < pversion (map_of rm n)")
        case lower: True
        then have "fst (dedup (sigs @ [s])) = rm"
          using True by (simp add: dedup_snoc acc dedup_step_lower del: dedup_step.simps)
        moreover from lower h(2) have "version s < version h"
          using pversion_le [of h] by simp
        ultimately have
          "filter (\<lambda>s. name s = Some n) (sigs @ [s]) = xs @ h # (ys @ [s])
           \<and> map_of (fst (dedup (sigs @ [s]))) n = Some h
           \<and> (\<forall>x\<in>set xs. version x \<le> version h)
           \<and> (\<forall>x\<in>set (ys @ [s]). version x < version h)"
          using True h by simp
        with ne show ?thesis by blast
      next
        case notlower: False
        with True assms(2) have "map_of (fst (dedup (sigs @ [s]))) n = Some s"
          by (simp add: dedup_snoc acc dedup_step_replaces del: dedup_step.simps)
        moreover from notlower h(2) pos have hs: "version h \<le> version s"
          using not_lower_replaces [of s h] by simp
        ultimately have
          "filter (\<lambda>s. name s = Some n) (sigs @ [s]) = (xs @ h # ys) @ s # []
           \<and> map_of (fst (dedup (sigs @ [s]))) n = Some s
           \<and> (\<forall>x\<in>set (xs @ h # ys). version x \<le> version s)
           \<and> (\<forall>x\<in>set []. version x < version s)"
          using True h by fastforce
        with ne show ?thesis by blast
      qed
    qed
  qed
qed

lemma dedup_step_distinct:
  "distinct (map fst (fst acc)) \<Longrightarrow> distinct (map fst (fst (dedup_step acc s)))"
  by (cases acc) (auto simp: distinct_update split: option.splits)

lemma dedup_fold_distinct:
  "distinct (map fst (fst acc)) \<Longrightarrow> distinct (map fst (fst (foldl dedup_step acc sigs)))"
proof (induction sigs arbitrary: acc)
  case Nil
  then show ?case by simp
next
  case (Cons s sigs)
  from Cons.prems have "distinct (map fst (fst (dedup_step acc s)))"
    by (rule dedup_step_distinct)
  from Cons.IH [OF this] show ?case by simp
qed

lemma dedup_distinct: "distinct (map fst (fst (dedup sigs)))"
  unfolding dedup_def by (rule dedup_fold_distinct) simp

lemma sole_holder:
  assumes "distinct (map fst rm)" and "holders_ok rm" and "map_of rm n = Some h"
  shows "filter (\<lambda>s. name s = Some n) (map snd rm) = [h]"
  using assms
proof (induction rm)
  case Nil
  then show ?case by simp
next
  case (Cons p rm)
  obtain k s where p: "p = (k, s)" by (cases p)
  from Cons.prems(2) have ok: "name s = Some k" "holders_ok rm"
    by (simp_all add: holders_ok_def p)
  show ?case
  proof (cases "k = n")
    case True
    with Cons.prems(3) have "s = h" by (simp add: p)
    moreover have "filter (\<lambda>s. name s = Some n) (map snd rm) = []"
    proof -
      have "n \<notin> fst ` set rm"
        using Cons.prems(1) True by (simp add: p)
      moreover have "\<forall>(k', s')\<in>set rm. name s' = Some k'"
        using ok(2) by (auto simp: holders_ok_def)
      ultimately have "\<forall>x\<in>set (map snd rm). name x \<noteq> Some n"
        by force
      then show ?thesis by (simp add: filter_empty_conv)
    qed
    ultimately show ?thesis using ok(1) True by (simp add: p)
  next
    case False
    with Cons.prems have "filter (\<lambda>s. name s = Some n) (map snd rm) = [h]"
      using Cons.IH ok(2) by (simp add: p)
    with False ok(1) show ?thesis by (simp add: p)
  qed
qed

lemma select_safe: "select True fetched = (map snd (fst (dedup fetched)), snd (dedup fetched))"
  by (cases "dedup fetched") (simp add: select_def)

text \<open>
  In safe mode the records are distinct, so a record that a pass drops is nowhere in the
  bundle.
\<close>

lemma select_safe_distinct: "distinct (fst (select True fetched))"
proof -
  let ?rm = "fst (dedup fetched)"
  have "map name (map snd ?rm) = map Some (map fst ?rm)"
    using dedup_holders [of fetched] by (auto simp: holders_ok_def)
  moreover have "distinct (map Some (map fst ?rm))"
    using dedup_distinct [of fetched] by (subst distinct_map) simp
  ultimately have "distinct (map name (map snd ?rm))"
    by (simp only:)
  then have "distinct (map snd ?rm)"
    using distinct_map by blast
  then show ?thesis by (simp add: select_safe)
qed

lemma disjoint_parts:
  assumes "mset p + mset q = mset rs" and "distinct rs"
  shows "set p \<inter> set q = {}"
proof -
  from assms(1) have "mset (p @ q) = mset rs" by simp
  with assms(2) have "distinct (p @ q)"
    using mset_eq_imp_distinct_iff by blast
  then show ?thesis by simp
qed

lemma buckets_distinct:
  "distinct (private_rules_dep (partitioned True fetched))"
  "distinct (rules_dep (partitioned True fetched))"
  using select_safe_distinct [of fetched]
  by (simp_all add: partitioned_eq by_rule_id_def)


lemma dropped_absent:
  assumes sl: "signature_list (sort_rules True fetched) =
       global_rules (partitioned True fetched) @ private_rules_no_dep (partitioned True fetched)
       @ pp @ rules_no_dep (partitioned True fetched) @ gp"
    and p: "mset pp + mset ps = mset (private_rules_dep (partitioned True fetched))"
    and g: "mset gp + mset gs = mset (rules_dep (partitioned True fetched))"
  shows "set ps \<inter> set (signature_list (sort_rules True fetched)) = {}"
    and "set gs \<inter> set (signature_list (sort_rules True fetched)) = {}"
proof -
  let ?b = "partitioned True fetched"
  note P = placed_and_stalled [OF p] and G = placed_and_stalled [OF g]
  have pd: "set pp \<inter> set ps = {}"
    using p buckets_distinct(1) by (rule disjoint_parts)
  have gd: "set gp \<inter> set gs = {}"
    using g buckets_distinct(2) by (rule disjoint_parts)
  have b3: "\<forall>x\<in>set (private_rules_dep ?b). \<not> is_global x \<and> is_private x \<and> \<not> no_depends x"
    by (simp add: partitioned_eq)
  have b5: "\<forall>x\<in>set (rules_dep ?b). \<not> is_global x \<and> \<not> is_private x \<and> \<not> no_depends x"
    by (simp add: partitioned_eq)
  have b1: "\<forall>x\<in>set (global_rules ?b). is_global x"
    by (simp add: partitioned_eq)
  have b2: "\<forall>x\<in>set (private_rules_no_dep ?b). no_depends x"
    by (simp add: partitioned_eq)
  have b4: "\<forall>x\<in>set (rules_no_dep ?b). no_depends x"
    by (simp add: partitioned_eq)
  show "set ps \<inter> set (signature_list (sort_rules True fetched)) = {}"
    unfolding sl set_append using P G pd b1 b2 b3 b4 b5 by blast
  show "set gs \<inter> set (signature_list (sort_rules True fetched)) = {}"
    unfolding sl set_append using P G gd b1 b2 b3 b4 b5 by blast
qed

section \<open>Facts about the cache\<close>

text \<open>
  What \<^const>\<open>download_signatures\<close> does when the cache holds the fingerprint and when
  it does not.
\<close>

lemma download_hit:
  assumes "get_cached_signatures c (fingerprint e (request_query query_arg) access) = Some x"
  shows "download_signatures e c query_arg safe_arg access = (Inr x, c)"
  using assms
  by (simp add: download_signatures_def Let_def fingerprint_def request_query_def)

lemma download_miss:
  assumes "signature_cache (fingerprint e (request_query query_arg) access) = None"
  shows "download_signatures e signature_cache query_arg safe_arg access =
     (case error_text (request_safe safe_arg)
             (sort_rules (request_safe safe_arg) (search e (request_query query_arg) access)) of
        Inl err \<Rightarrow> (Inl err, signature_cache)
      | Inr error \<Rightarrow>
          (Inr (make_file_response
                  (header (request_query query_arg) error (last_modified e)
                     (fingerprint e (request_query query_arg) access)
                   @ dump_rule_file e
                       (signature_list
                          (sort_rules (request_safe safe_arg)
                             (search e (request_query query_arg) access))))
                  (''al_yara_signatures_''
                   @ take 7 (fingerprint e (request_query query_arg) access) @ ''.yar'')
                  (length
                     (header (request_query query_arg) error (last_modified e)
                        (fingerprint e (request_query query_arg) access)
                      @ dump_rule_file e
                          (signature_list
                             (sort_rules (request_safe safe_arg)
                                (search e (request_query query_arg) access)))))
                  ''text/yara''),
           signature_cache
             (fingerprint e (request_query query_arg) access \<mapsto>
              header (request_query query_arg) error (last_modified e)
                (fingerprint e (request_query query_arg) access)
              @ dump_rule_file e
                  (signature_list
                     (sort_rules (request_safe safe_arg)
                        (search e (request_query query_arg) access))))))"
  using assms
  by (simp add: download_signatures_def Let_def fingerprint_def request_query_def
      request_safe_def get_cached_signatures_def split: sum.splits)

section \<open>Claims\<close>

text \<open>
  C3. In safe mode, for three records named "X" seen in the order R1 (revision 1),
  R2 (revision 3), R3 (revision 2), duplicate resolution keeps R2 as the holder of "X";
  the claim is that the duplicate report then has two entries, for R1 and for R3. On
  this input the code keeps R2, and its report has the single entry added when R3 loses
  to R2: R1 is displaced by R2 without an entry. Seen in the order R2, R1, R3 the same
  records give the two entries.
\<close>

theorem dedup_three_revisions:
  "dedup [doc ''X'' ''rule'' [] ''ORG_000001'' 1, doc ''X'' ''rule'' [] ''ORG_000001'' 3,
          doc ''X'' ''rule'' [] ''ORG_000001'' 2]
     = ([(''X'', doc ''X'' ''rule'' [] ''ORG_000001'' 3)], [''X''])
   \<and> duplicate_rules
       (sort_rules True
          [doc ''X'' ''rule'' [] ''ORG_000001'' 1, doc ''X'' ''rule'' [] ''ORG_000001'' 3,
           doc ''X'' ''rule'' [] ''ORG_000001'' 2]) = [''X'']
   \<and> signature_list
       (sort_rules True
          [doc ''X'' ''rule'' [] ''ORG_000001'' 1, doc ''X'' ''rule'' [] ''ORG_000001'' 3,
           doc ''X'' ''rule'' [] ''ORG_000001'' 2]) = [doc ''X'' ''rule'' [] ''ORG_000001'' 3]
   \<and> dedup [doc ''X'' ''rule'' [] ''ORG_000001'' 3, doc ''X'' ''rule'' [] ''ORG_000001'' 1,
            doc ''X'' ''rule'' [] ''ORG_000001'' 2]
     = ([(''X'', doc ''X'' ''rule'' [] ''ORG_000001'' 3)], [''X'', ''X''])"
  by code_simp

text \<open>
  C4. The claim is that the private pass starts with exactly the names of the global and
  private no-dependency records resolved. On the input of a standard record "S" without
  dependencies and a private record "P" that depends on "S", both buckets are empty
  and yet \<^verbatim>\<open>name_map\<close> answers true for "S" when the private pass starts; "P" is
  placed at once, before "S" in the bundle, and nothing is reported.
\<close>

theorem private_pass_sees_standard_names:
  "lookup
     (name_map
        (private_start True
           [doc ''S'' ''rule'' [] ''ORG_000001'' 1,
            doc ''P'' ''private rule'' [''S''] ''ORG_000002'' 1])) ''S''
   \<and> global_rules
       (private_start True
          [doc ''S'' ''rule'' [] ''ORG_000001'' 1,
           doc ''P'' ''private rule'' [''S''] ''ORG_000002'' 1]) = []
   \<and> private_rules_no_dep
       (private_start True
          [doc ''S'' ''rule'' [] ''ORG_000001'' 1,
           doc ''P'' ''private rule'' [''S''] ''ORG_000002'' 1]) = []
   \<and> signature_list
       (sort_rules True
          [doc ''S'' ''rule'' [] ''ORG_000001'' 1,
           doc ''P'' ''private rule'' [''S''] ''ORG_000002'' 1])
     = [doc ''P'' ''private rule'' [''S''] ''ORG_000002'' 1,
        doc ''S'' ''rule'' [] ''ORG_000001'' 1]
   \<and> error_rules
       (sort_rules True
          [doc ''S'' ''rule'' [] ''ORG_000001'' 1,
           doc ''P'' ''private rule'' [''S''] ''ORG_000002'' 1]) = []"
  by code_simp



text \<open>
  C8. Both fix-point loops terminate. A round on a non-empty list leaves a strictly
  shorter list, and a round without progress leaves the empty list; the loop, run as a
  while loop that might not return, returns, with the value of the recursive function,
  and ends with the list of candidates empty.
\<close>

theorem resolution_loops_terminate:
  "(private_rules_dep st \<noteq> [] \<longrightarrow>
      length (private_rules_dep (private_round safe st)) < length (private_rules_dep st))
   \<and> (private_rules_dep st = new_private_rules_dep st \<longrightarrow>
        private_rules_dep (private_round safe st) = [])
   \<and> while_option (\<lambda>s. private_rules_dep s \<noteq> []) (private_round safe) st =
        Some (private_loop safe st)
   \<and> private_rules_dep (private_loop safe st) = []
   \<and> (rules_dep st \<noteq> [] \<longrightarrow>
        length (rules_dep (rules_round safe st)) < length (rules_dep st))
   \<and> (rules_dep st = new_rules_dep st \<longrightarrow> rules_dep (rules_round safe st) = [])
   \<and> while_option (\<lambda>s. rules_dep s \<noteq> []) (rules_round safe) st = Some (rules_loop safe st)
   \<and> rules_dep (rules_loop safe st) = []"
proof (intro conjI impI)
  assume "private_rules_dep st = new_private_rules_dep st"
  then show "private_rules_dep (private_round safe st) = []"
    by (simp add: private_round_stall)
next
  assume "rules_dep st = new_rules_dep st"
  then show "rules_dep (rules_round safe st) = []"
    by (simp add: rules_round_stall)
qed (simp_all add: private_round_shrinks rules_round_shrinks private_while rules_while
      private_loop_empties rules_loop_empties)

theorem resolution_loops_terminate_witness:
  "private_rules_dep
     (private_start True
        [doc ''A'' ''private rule'' [''B''] ''ORG_000001'' 1,
         doc ''C'' ''rule'' [''D''] ''ORG_000002'' 1]) \<noteq> []
   \<and> private_rules_dep
       (private_start True
          [doc ''A'' ''private rule'' [''B''] ''ORG_000001'' 1,
           doc ''C'' ''rule'' [''D''] ''ORG_000002'' 1])
     = new_private_rules_dep
         (private_start True
            [doc ''A'' ''private rule'' [''B''] ''ORG_000001'' 1,
             doc ''C'' ''rule'' [''D''] ''ORG_000002'' 1])
   \<and> length
       (private_rules_dep
          (private_round True
             (private_start True
                [doc ''A'' ''private rule'' [''B''] ''ORG_000001'' 1,
                 doc ''C'' ''rule'' [''D''] ''ORG_000002'' 1])))
     < length
         (private_rules_dep
            (private_start True
               [doc ''A'' ''private rule'' [''B''] ''ORG_000001'' 1,
                doc ''C'' ''rule'' [''D''] ''ORG_000002'' 1]))
   \<and> private_rules_dep
       (private_round True
          (private_start True
             [doc ''A'' ''private rule'' [''B''] ''ORG_000001'' 1,
              doc ''C'' ''rule'' [''D''] ''ORG_000002'' 1])) = []
   \<and> rules_dep
       (rules_round True
          (private_start True
             [doc ''A'' ''private rule'' [''B''] ''ORG_000001'' 1,
              doc ''C'' ''rule'' [''D''] ''ORG_000002'' 1])) = []"
proof -
  let ?st = "private_start True
        [doc ''A'' ''private rule'' [''B''] ''ORG_000001'' 1,
         doc ''C'' ''rule'' [''D''] ''ORG_000002'' 1]"
  have 1: "private_rules_dep ?st \<noteq> []" by code_simp
  have 2: "private_rules_dep ?st = new_private_rules_dep ?st" by code_simp
  have 3: "rules_dep ?st \<noteq> []" by code_simp
  have 4: "rules_dep ?st = new_rules_dep ?st" by code_simp
  from resolution_loops_terminate [of ?st True] 1 2 3 4 show ?thesis by blast
qed

text \<open>
  C9. For every input and every safe flag, the bundle starts with the global bucket (the
  global records of the input, sorted by rule id) and none of the records after it is
  global. So a global record stands before every private and every standard record of
  the bundle, whatever the dependencies between them.
\<close>

theorem globals_first:
  "(\<exists>rest. signature_list (sort_rules safe fetched) =
        by_rule_id (filter is_global (fst (select safe fetched))) @ rest
      \<and> (\<forall>r\<in>set rest. \<not> is_global r))
   \<and> (\<forall>i j. i < length (signature_list (sort_rules safe fetched))
         \<and> j < length (signature_list (sort_rules safe fetched))
         \<and> is_global (signature_list (sort_rules safe fetched) ! i)
         \<and> \<not> is_global (signature_list (sort_rules safe fetched) ! j) \<longrightarrow> i < j)"
proof -
  let ?b = "partitioned safe fetched"
  let ?G = "by_rule_id (filter is_global (fst (select safe fetched)))"
  obtain pp ps gp gs where
    h: "signature_list (sort_rules safe fetched) =
          global_rules ?b @ private_rules_no_dep ?b @ pp @ (if \<not> safe then ps else [])
          @ rules_no_dep ?b @ gp @ (if \<not> safe then gs else [])"
       "mset pp + mset ps = mset (private_rules_dep ?b)"
       "mset gp + mset gs = mset (rules_dep ?b)"
    by (rule sort_rules_cases [of safe fetched])
  define rest where "rest = private_rules_no_dep ?b @ pp @ (if \<not> safe then ps else [])
          @ rules_no_dep ?b @ gp @ (if \<not> safe then gs else [])"
  have G: "global_rules ?b = ?G"
    by (simp add: partitioned_eq)
  have sl: "signature_list (sort_rules safe fetched) = ?G @ rest"
    unfolding h(1) rest_def G by simp
  have "set rest \<subseteq> set (private_rules_no_dep ?b) \<union> set (private_rules_dep ?b)
      \<union> set (rules_no_dep ?b) \<union> set (rules_dep ?b)"
    unfolding rest_def using placed_and_stalled [OF h(2)] placed_and_stalled [OF h(3)] by auto
  also have "\<dots> \<subseteq> {r. \<not> is_global r}"
    by (auto simp: partitioned_eq)
  finally have rest: "\<forall>r\<in>set rest. \<not> is_global r" by auto
  have glob: "\<forall>g\<in>set ?G. is_global g" by simp
  have idx: "i < j"
    if "i < length (?G @ rest)" "j < length (?G @ rest)"
       "is_global ((?G @ rest) ! i)" "\<not> is_global ((?G @ rest) ! j)" for i j
  proof -
    have "i < length ?G"
    proof (rule ccontr)
      assume "\<not> i < length ?G"
      with that(1) have "(?G @ rest) ! i \<in> set rest"
        by (simp add: nth_append)
      with rest that(3) show False by blast
    qed
    moreover have "\<not> j < length ?G"
    proof
      assume "j < length ?G"
      then have "(?G @ rest) ! j \<in> set ?G"
        unfolding nth_append by (simp only: if_True nth_mem)
      with glob that(4) show False by blast
    qed
    ultimately show ?thesis by simp
  qed
  from sl rest idx show ?thesis
    unfolding sl by blast
qed

theorem globals_first_witness:
  "is_global
     (signature_list
        (sort_rules False
           [doc ''P'' ''private rule'' [] ''ORG_000001'' 1,
            doc ''G'' ''global private rule'' [''P''] ''ORG_000002'' 1]) ! 0)
   \<and> \<not> is_global
       (signature_list
          (sort_rules False
             [doc ''P'' ''private rule'' [] ''ORG_000001'' 1,
              doc ''G'' ''global private rule'' [''P''] ''ORG_000002'' 1]) ! 1)
   \<and> (\<exists>rest.
        signature_list
          (sort_rules False
             [doc ''P'' ''private rule'' [] ''ORG_000001'' 1,
              doc ''G'' ''global private rule'' [''P''] ''ORG_000002'' 1])
        = doc ''G'' ''global private rule'' [''P''] ''ORG_000002'' 1 # rest)"
proof -
  let ?fetched = "[doc ''P'' ''private rule'' [] ''ORG_000001'' 1,
            doc ''G'' ''global private rule'' [''P''] ''ORG_000002'' 1]"
  have 1: "by_rule_id (filter is_global (fst (select False ?fetched)))
      = [doc ''G'' ''global private rule'' [''P''] ''ORG_000002'' 1]"
    by code_simp
  have 2: "is_global (signature_list (sort_rules False ?fetched) ! 0)"
    by code_simp
  have 3: "\<not> is_global (signature_list (sort_rules False ?fetched) ! 1)"
    by code_simp
  from globals_first [of False ?fetched] 1 have
    "\<exists>rest. signature_list (sort_rules False ?fetched)
       = doc ''G'' ''global private rule'' [''P''] ''ORG_000002'' 1 # rest"
    by auto
  with 2 3 show ?thesis by blast
qed

text \<open>
  C10. In safe mode a fetched record whose name is absent or empty is skipped before
  duplicate resolution: the whole result of the sort is the one of the input without
  these records, no record of the bundle has such a name, the duplicate report holds no
  empty name and the unresolved-dependency report holds no absent name.
\<close>

theorem unnamed_records_skipped:
  "sort_rules True fetched = sort_rules True (filter (\<lambda>s. \<not> not_name (name s)) fetched)
   \<and> (\<forall>s\<in>set (signature_list (sort_rules True fetched)). \<not> not_name (name s))
   \<and> (\<forall>n\<in>set (duplicate_rules (sort_rules True fetched)). n \<noteq> [])
   \<and> None \<notin> set (error_rules (sort_rules True fetched))"
proof (intro conjI)
  show "sort_rules True fetched = sort_rules True (filter (\<lambda>s. \<not> not_name (name s)) fetched)"
    by (simp add: sort_rules_def rules_start_def private_start_def partitioned_def
        select_filter)
  show "\<forall>s\<in>set (signature_list (sort_rules True fetched)). \<not> not_name (name s)"
    using bundle_parts [of True fetched] select_safe_named [of _ fetched] by blast
  have "duplicate_rules (sort_rules True fetched) = snd (dedup fetched)"
  proof -
    obtain pp ps gp gs where
      "sort_rules True fetched =
       (partitioned True fetched)
       \<lparr>error_rules := concat (map (\<lambda>x. map Some (depends_list x)) ps) @ map name gs,
        name_map := mark (pp @ (if \<not> True then ps else []) @ gp @ (if \<not> True then gs else []))
                      (name_map (partitioned True fetched)),
        signature_list :=
          global_rules (partitioned True fetched)
          @ private_rules_no_dep (partitioned True fetched)
          @ pp @ (if \<not> True then ps else [])
          @ rules_no_dep (partitioned True fetched)
          @ gp @ (if \<not> True then gs else []),
        private_rules_dep := [], rules_dep := []\<rparr>"
      using sort_rules_result [of True fetched] by blast
    then have "duplicate_rules (sort_rules True fetched) =
        duplicate_rules (partitioned True fetched)"
      by simp
    then show ?thesis
      by (simp add: partitioned_eq select_def split: prod.splits)
  qed
  moreover have "\<forall>n\<in>set (snd (dedup fetched)). n \<noteq> []"
    unfolding dedup_def by (rule dedup_fold_dups) simp
  ultimately show "\<forall>n\<in>set (duplicate_rules (sort_rules True fetched)). n \<noteq> []"
    by simp
  show "None \<notin> set (error_rules (sort_rules True fetched))"
  proof -
    let ?b = "partitioned True fetched"
    obtain pp ps gp gs where
      h: "error_rules (sort_rules True fetched) =
            concat (map (\<lambda>x. map Some (depends_list x)) ps) @ map name gs"
         "mset gp + mset gs = mset (rules_dep ?b)"
      by (rule sort_rules_cases [of True fetched])
    have "set gs \<subseteq> set (fst (select True fetched))"
      using placed_and_stalled(2) [OF h(2)] by (auto simp: partitioned_eq)
    then have "\<forall>x\<in>set gs. \<not> not_name (name x)"
      using select_safe_named [of _ fetched] by blast
    then have "\<forall>x\<in>set gs. name x \<noteq> None"
      unfolding not_name_def by (metis option.simps(4))
    then show ?thesis
      unfolding h(1) by auto
  qed
qed

theorem unnamed_records_skipped_witness:
  "sort_rules True
     [\<lparr>name = None, type = ''rule'', depends = None,
       meta = \<lparr>rule_id = ''ORG_000001'', rule_version = None\<rparr>\<rparr>,
      doc [] ''rule'' [] ''ORG_000002'' 1,
      doc ''A'' ''rule'' [] ''ORG_000003'' 2,
      doc ''A'' ''rule'' [] ''ORG_000003'' 1]
   = sort_rules True
       [doc ''A'' ''rule'' [] ''ORG_000003'' 2, doc ''A'' ''rule'' [] ''ORG_000003'' 1]
   \<and> signature_list
       (sort_rules True
          [\<lparr>name = None, type = ''rule'', depends = None,
            meta = \<lparr>rule_id = ''ORG_000001'', rule_version = None\<rparr>\<rparr>,
           doc [] ''rule'' [] ''ORG_000002'' 1,
           doc ''A'' ''rule'' [] ''ORG_000003'' 2,
           doc ''A'' ''rule'' [] ''ORG_000003'' 1])
     = [doc ''A'' ''rule'' [] ''ORG_000003'' 2]
   \<and> duplicate_rules
       (sort_rules True
          [\<lparr>name = None, type = ''rule'', depends = None,
            meta = \<lparr>rule_id = ''ORG_000001'', rule_version = None\<rparr>\<rparr>,
           doc [] ''rule'' [] ''ORG_000002'' 1,
           doc ''A'' ''rule'' [] ''ORG_000003'' 2,
           doc ''A'' ''rule'' [] ''ORG_000003'' 1])
     = [''A'']"
proof -
  let ?fetched = "[\<lparr>name = None, type = ''rule'', depends = None,
       meta = \<lparr>rule_id = ''ORG_000001'', rule_version = None\<rparr>\<rparr>,
      doc [] ''rule'' [] ''ORG_000002'' 1,
      doc ''A'' ''rule'' [] ''ORG_000003'' 2,
      doc ''A'' ''rule'' [] ''ORG_000003'' 1]"
  have 1: "filter (\<lambda>s. \<not> not_name (name s)) ?fetched
      = [doc ''A'' ''rule'' [] ''ORG_000003'' 2, doc ''A'' ''rule'' [] ''ORG_000003'' 1]"
    by code_simp
  have 2: "signature_list
       (sort_rules True
          [doc ''A'' ''rule'' [] ''ORG_000003'' 2, doc ''A'' ''rule'' [] ''ORG_000003'' 1])
     = [doc ''A'' ''rule'' [] ''ORG_000003'' 2]"
    by code_simp
  have 3: "duplicate_rules
       (sort_rules True
          [doc ''A'' ''rule'' [] ''ORG_000003'' 2, doc ''A'' ''rule'' [] ''ORG_000003'' 1])
     = [''A'']"
    by code_simp
  from unnamed_records_skipped [of ?fetched] have
    "sort_rules True ?fetched = sort_rules True (filter (\<lambda>s. \<not> not_name (name s)) ?fetched)"
    by (rule conjunct1)
  with 1 2 3 show ?thesis by simp
qed

text \<open>
  C6. In safe mode, for every input whose revisions are positive (the data model's
  invariant) and every non-empty rule name that occurs in it, the sole record of that
  name after duplicate resolution, \<open>h\<close>, is a record of that name of maximal revision,
  and the last such in the order of the input: no record of the name has a higher
  revision, and every one seen after \<open>h\<close> has a strictly lower one. A record of strictly
  lower revision than the current holder leaves \<^verbatim>\<open>rules_map\<close> as it is.
\<close>

theorem highest_revision_survives:
  assumes "\<forall>s\<in>set fetched. 0 < version s" and "n \<noteq> []"
    and "filter (\<lambda>s. name s = Some n) fetched \<noteq> []"
  shows "(\<exists>xs h ys. filter (\<lambda>s. name s = Some n) fetched = xs @ h # ys
            \<and> map_of (fst (dedup fetched)) n = Some h
            \<and> filter (\<lambda>s. name s = Some n) (fst (select True fetched)) = [h]
            \<and> (\<forall>s\<in>set xs. version s \<le> version h)
            \<and> (\<forall>s\<in>set ys. version s < version h))
     \<and> (\<forall>rm dups s h. name s = Some n \<and> map_of rm n = Some h \<and> 0 < version s
            \<and> version s < version h \<longrightarrow> fst (dedup_step (rm, dups) s) = rm)"
proof
  from dedup_holder [OF assms(1,2)] assms(3) obtain xs h ys where
    h: "filter (\<lambda>s. name s = Some n) fetched = xs @ h # ys"
       "map_of (fst (dedup fetched)) n = Some h"
       "\<forall>s\<in>set xs. version s \<le> version h" "\<forall>s\<in>set ys. version s < version h"
    by blast
  have "filter (\<lambda>s. name s = Some n) (map snd (fst (dedup fetched))) = [h]"
    using dedup_distinct dedup_holders h(2) by (rule sole_holder)
  then have "filter (\<lambda>s. name s = Some n) (fst (select True fetched)) = [h]"
    by (simp add: select_safe)
  with h show "\<exists>xs h ys. filter (\<lambda>s. name s = Some n) fetched = xs @ h # ys
            \<and> map_of (fst (dedup fetched)) n = Some h
            \<and> filter (\<lambda>s. name s = Some n) (fst (select True fetched)) = [h]
            \<and> (\<forall>s\<in>set xs. version s \<le> version h)
            \<and> (\<forall>s\<in>set ys. version s < version h)"
    by blast
next
  show "\<forall>rm dups s h. name s = Some n \<and> map_of rm n = Some h \<and> 0 < version s
            \<and> version s < version h \<longrightarrow> fst (dedup_step (rm, dups) s) = rm"
  proof (intro allI impI)
    fix rm dups s h
    assume a: "name s = Some n \<and> map_of rm n = Some h \<and> 0 < version s \<and> version s < version h"
    then have "version s < pversion (map_of rm n)"
      by (auto simp: pversion_def version_def split: option.splits)
    with a show "fst (dedup_step (rm, dups) s) = rm"
      by (simp add: dedup_step_lower del: dedup_step.simps)
  qed
qed

theorem highest_revision_survives_witness:
  "0 < version (doc ''X'' ''rule'' [] ''ORG_000001'' 1)
   \<and> 0 < version (doc ''X'' ''rule'' [] ''ORG_000001'' 3)
   \<and> 0 < version (doc ''X'' ''rule'' [] ''ORG_000001'' 2)
   \<and> map_of
       (fst (dedup [doc ''X'' ''rule'' [] ''ORG_000001'' 1,
                    doc ''X'' ''rule'' [] ''ORG_000001'' 3,
                    doc ''X'' ''rule'' [] ''ORG_000001'' 2])) ''X''
     = Some (doc ''X'' ''rule'' [] ''ORG_000001'' 3)
   \<and> filter (\<lambda>s. name s = Some ''X'')
       (fst (select True
               [doc ''X'' ''rule'' [] ''ORG_000001'' 1,
                doc ''X'' ''rule'' [] ''ORG_000001'' 3,
                doc ''X'' ''rule'' [] ''ORG_000001'' 2]))
     = [doc ''X'' ''rule'' [] ''ORG_000001'' 3]"
proof -
  let ?fetched = "[doc ''X'' ''rule'' [] ''ORG_000001'' 1,
                    doc ''X'' ''rule'' [] ''ORG_000001'' 3,
                    doc ''X'' ''rule'' [] ''ORG_000001'' 2]"
  have 1: "\<forall>s\<in>set ?fetched. 0 < version s"
    by (simp add: version_def doc_def)
  have 2: "''X'' \<noteq> []" by simp
  have 3: "filter (\<lambda>s. name s = Some ''X'') ?fetched \<noteq> []"
    by (simp add: doc_def)
  have 4: "map_of (fst (dedup ?fetched)) ''X'' = Some (doc ''X'' ''rule'' [] ''ORG_000001'' 3)"
    by code_simp
  from highest_revision_survives [OF 1 2 3] obtain h where
    "map_of (fst (dedup ?fetched)) ''X'' = Some h"
    "filter (\<lambda>s. name s = Some ''X'') (fst (select True ?fetched)) = [h]"
    by blast
  with 4 have "filter (\<lambda>s. name s = Some ''X'') (fst (select True ?fetched))
      = [doc ''X'' ''rule'' [] ''ORG_000001'' 3]"
    by simp
  with 1 4 show ?thesis by simp
qed

text \<open>
  C7. When a call of \<^verbatim>\<open>download_signatures\<close> has returned a response, the cache
  holds a document under the fingerprint of the call and the response is made of that
  document: the one the cache held before the call, or else the one the call has
  computed (header and dumped bundle) and stored. A second call with the same query text,
  access scope and last-modification time has the same fingerprint; it returns what
  reading the cache gives, which is the same response, and leaves the cache as it is,
  whatever the datastore holds by then and whatever the \<^verbatim>\<open>safe\<close> argument: it is
  served from the cache and nothing is computed again.
\<close>

theorem cached_download_served_again:
  assumes "download_signatures e signature_cache query_arg safe_arg access = (Inr r, cache')"
    and "sha256_hexdigest e' = sha256_hexdigest e" and "last_modified e' = last_modified e"
  shows "\<exists>document.
      cache' (fingerprint e (request_query query_arg) access) = Some document
      \<and> r = make_file_response document
            (''al_yara_signatures_''
             @ take 7 (fingerprint e (request_query query_arg) access) @ ''.yar'')
            (length document) ''text/yara''
      \<and> (case signature_cache (fingerprint e (request_query query_arg) access) of
           Some s \<Rightarrow> document = s \<and> cache' = signature_cache
         | None \<Rightarrow>
             cache' = signature_cache(fingerprint e (request_query query_arg) access \<mapsto> document)
             \<and> (\<exists>error.
                  error_text (request_safe safe_arg)
                    (sort_rules (request_safe safe_arg)
                       (search e (request_query query_arg) access)) = Inr error
                  \<and> document =
                      header (request_query query_arg) error (last_modified e)
                        (fingerprint e (request_query query_arg) access)
                      @ dump_rule_file e
                          (signature_list
                             (sort_rules (request_safe safe_arg)
                                (search e (request_query query_arg) access)))))
      \<and> fingerprint e' (request_query query_arg) access
          = fingerprint e (request_query query_arg) access
      \<and> get_cached_signatures cache' (fingerprint e' (request_query query_arg) access) = Some r
      \<and> download_signatures e' cache' query_arg safe_arg' access = (Inr r, cache')"
proof -
  let ?h = "fingerprint e (request_query query_arg) access"
  let ?name = "''al_yara_signatures_'' @ take 7 ?h @ ''.yar''"
  have same: "fingerprint e' (request_query query_arg) access = ?h"
    using assms(2,3) by (simp add: fingerprint_def)
  have main: "\<exists>document. cache' ?h = Some document
      \<and> r = make_file_response document ?name (length document) ''text/yara''
      \<and> (case signature_cache ?h of
           Some s \<Rightarrow> document = s \<and> cache' = signature_cache
         | None \<Rightarrow>
             cache' = signature_cache(?h \<mapsto> document)
             \<and> (\<exists>error.
                  error_text (request_safe safe_arg)
                    (sort_rules (request_safe safe_arg)
                       (search e (request_query query_arg) access)) = Inr error
                  \<and> document =
                      header (request_query query_arg) error (last_modified e) ?h
                      @ dump_rule_file e
                          (signature_list
                             (sort_rules (request_safe safe_arg)
                                (search e (request_query query_arg) access)))))"
  proof (cases "signature_cache ?h")
    case (Some s)
    then have "get_cached_signatures signature_cache ?h =
        Some (make_file_response s ?name (length s) ''text/yara'')"
      by (simp add: get_cached_signatures_def)
    from download_hit [where c = signature_cache and e = e and query_arg = query_arg
        and access = access and safe_arg = safe_arg, OF this] assms(1)
    have "r = make_file_response s ?name (length s) ''text/yara''" "cache' = signature_cache"
      by simp_all
    with Some show ?thesis by simp
  next
    case None
    note miss = download_miss [where signature_cache = signature_cache and e = e
        and query_arg = query_arg and access = access and safe_arg = safe_arg, OF None]
    from miss assms(1) obtain error where
      "error_text (request_safe safe_arg)
         (sort_rules (request_safe safe_arg) (search e (request_query query_arg) access))
       = Inr error"
      by (auto split: sum.splits)
    with miss assms(1) None show ?thesis
      by auto
  qed
  then obtain document where d: "cache' ?h = Some document"
      "r = make_file_response document ?name (length document) ''text/yara''"
    by blast
  then have got: "get_cached_signatures cache' ?h = Some r"
    by (simp add: get_cached_signatures_def)
  then have "get_cached_signatures cache' (fingerprint e' (request_query query_arg) access)
      = Some r"
    by (simp add: same)
  then have again: "download_signatures e' cache' query_arg safe_arg' access = (Inr r, cache')"
    by (rule download_hit)
  from main same got again show ?thesis
    by (simp add: same)
qed

theorem cached_download_served_again_witness:
  "(case fst (download_signatures
        \<lparr>sha256_hexdigest = rev, dump_rule_file = concat \<circ> map type,
         last_modified = ''2019-01-01'',
         search = (\<lambda>q a. [doc ''A'' ''rule'' [''B''] ''ORG_000001'' 1])\<rparr>
        Map.empty None None ''U'') of Inl x \<Rightarrow> False | Inr x \<Rightarrow> True)
   \<and> (case snd (download_signatures
        \<lparr>sha256_hexdigest = rev, dump_rule_file = concat \<circ> map type,
         last_modified = ''2019-01-01'',
         search = (\<lambda>q a. [doc ''A'' ''rule'' [''B''] ''ORG_000001'' 1])\<rparr>
        Map.empty None None ''U'')
        (fingerprint
           \<lparr>sha256_hexdigest = rev, dump_rule_file = concat \<circ> map type,
            last_modified = ''2019-01-01'',
            search = (\<lambda>q a. [doc ''A'' ''rule'' [''B''] ''ORG_000001'' 1])\<rparr>
           (request_query None) ''U'') of None \<Rightarrow> False | Some d \<Rightarrow> True)
   \<and> fst (download_signatures
        \<lparr>sha256_hexdigest = rev, dump_rule_file = (\<lambda>sl. []),
         last_modified = ''2019-01-01'', search = (\<lambda>q a. [])\<rparr>
        (snd (download_signatures
          \<lparr>sha256_hexdigest = rev, dump_rule_file = concat \<circ> map type,
           last_modified = ''2019-01-01'',
           search = (\<lambda>q a. [doc ''A'' ''rule'' [''B''] ''ORG_000001'' 1])\<rparr>
          Map.empty None None ''U''))
        None (Some ''true'') ''U'')
     = fst (download_signatures
        \<lparr>sha256_hexdigest = rev, dump_rule_file = concat \<circ> map type,
         last_modified = ''2019-01-01'',
         search = (\<lambda>q a. [doc ''A'' ''rule'' [''B''] ''ORG_000001'' 1])\<rparr>
        Map.empty None None ''U'')
   \<and> fst (download_signatures
        \<lparr>sha256_hexdigest = rev, dump_rule_file = (\<lambda>sl. []),
         last_modified = ''2019-01-01'', search = (\<lambda>q a. [])\<rparr>
        Map.empty None (Some ''true'') ''U'')
     \<noteq> fst (download_signatures
        \<lparr>sha256_hexdigest = rev, dump_rule_file = concat \<circ> map type,
         last_modified = ''2019-01-01'',
         search = (\<lambda>q a. [doc ''A'' ''rule'' [''B''] ''ORG_000001'' 1])\<rparr>
        Map.empty None None ''U'')"
proof -
  let ?e = "\<lparr>sha256_hexdigest = rev, dump_rule_file = concat \<circ> map type,
         last_modified = ''2019-01-01'',
         search = (\<lambda>q a. [doc ''A'' ''rule'' [''B''] ''ORG_000001'' 1])\<rparr>"
  let ?e' = "\<lparr>sha256_hexdigest = rev, dump_rule_file = (\<lambda>sl. []),
         last_modified = ''2019-01-01'', search = (\<lambda>q a. [])\<rparr>"
  let ?first = "download_signatures ?e Map.empty None None ''U''"
  have 1: "case fst ?first of Inl x \<Rightarrow> False | Inr x \<Rightarrow> True"
    by code_simp
  then obtain r where "fst ?first = Inr r"
    by (cases "fst ?first") simp_all
  then have 2: "?first = (Inr r, snd ?first)"
    by (simp add: prod_eq_iff)
  have 3: "sha256_hexdigest ?e' = sha256_hexdigest ?e" "last_modified ?e' = last_modified ?e"
    by simp_all
  from cached_download_served_again [OF 2 3, of "Some ''true''"] obtain document where
    "snd ?first (fingerprint ?e (request_query None) ''U'') = Some document"
    "download_signatures ?e' (snd ?first) None (Some ''true'') ''U'' = (Inr r, snd ?first)"
    by blast
  then have 4: "case snd ?first (fingerprint ?e (request_query None) ''U'') of
        None \<Rightarrow> False | Some d \<Rightarrow> True"
    and 5: "fst (download_signatures ?e' (snd ?first) None (Some ''true'') ''U'') = fst ?first"
    using 2 by simp_all
  have 6: "fst (download_signatures ?e' Map.empty None (Some ''true'') ''U'') \<noteq> fst ?first"
    by code_simp
  from 1 4 5 6 show ?thesis by blast
qed

text \<open>
  C1. The claim is that, for every input and every safe flag, the records appended by
  dependency resolution are a permutation of the dep bucket, minus the unresolvable
  records dropped in safe mode, in which every record's dependency names are among the
  names of the records before it or the pre-seeded names. Not in safe mode this fails:
  a lone standard record "A" that depends on "B" is appended although nothing is
  resolved and nothing stands before it.
\<close>

theorem dependency_order_counterexample:
  "signature_list (sort_rules False [doc ''A'' ''rule'' [''B''] ''ORG_000001'' 1])
     = [doc ''A'' ''rule'' [''B''] ''ORG_000001'' 1]
   \<and> signature_list (rules_start False [doc ''A'' ''rule'' [''B''] ''ORG_000001'' 1]) = []
   \<and> \<not> placed_ok
         (resolved_names
            (name_map (rules_start False [doc ''A'' ''rule'' [''B''] ''ORG_000001'' 1])))
         [doc ''A'' ''rule'' [''B''] ''ORG_000001'' 1]"
proof -
  let ?fetched = "[doc ''A'' ''rule'' [''B''] ''ORG_000001'' 1]"
  have 1: "signature_list (sort_rules False ?fetched) = ?fetched"
    by code_simp
  have 2: "signature_list (rules_start False ?fetched) = []"
    by code_simp
  have "\<not> lookup (name_map (rules_start False ?fetched)) ''B''"
    by code_simp
  then have 3: "\<not> placed_ok (resolved_names (name_map (rules_start False ?fetched))) ?fetched"
    by (simp add: lookup_resolved depends_list_def doc_def)
  from 1 2 3 show ?thesis by simp
qed

text \<open>
  C1, as the code has it. Each pass splits its dep bucket into the records it places,
  \<open>pp\<close> and \<open>gp\<close>, and the unresolvable ones, \<open>ps\<close> and \<open>gs\<close>. The bundle is the
  global bucket, the private no-dependency bucket, \<open>pp\<close>, the no-dependency bucket and
  \<open>gp\<close>, with \<open>ps\<close> and \<open>gs\<close> appended to their pass when not in safe mode and dropped
  in safe mode. Every placed record has all its dependency names among the pre-seeded
  names (the names of the three buckets without dependencies) and the names of the
  records its pass and the pass before have appended before it; every unresolvable record
  has a dependency name that is not among them when its pass stalls. In safe mode no
  unresolvable record is anywhere in the bundle.
\<close>

theorem dependency_order:
  "\<exists>pp ps gp gs.
     signature_list (sort_rules safe fetched) =
       global_rules (partitioned safe fetched) @ private_rules_no_dep (partitioned safe fetched)
       @ pp @ (if \<not> safe then ps else [])
       @ rules_no_dep (partitioned safe fetched) @ gp @ (if \<not> safe then gs else [])
     \<and> mset pp + mset ps = mset (private_rules_dep (partitioned safe fetched))
     \<and> mset gp + mset gs = mset (rules_dep (partitioned safe fetched))
     \<and> placed_ok (resolved_names (name_map (partitioned safe fetched))) pp
     \<and> placed_ok (resolved_names (name_map (partitioned safe fetched))
                  \<union> name ` set (pp @ (if \<not> safe then ps else []))) gp
     \<and> (\<forall>x\<in>set ps. found (mark pp (name_map (partitioned safe fetched))) x)
     \<and> (\<forall>x\<in>set gs. found (mark (pp @ (if \<not> safe then ps else []) @ gp)
                            (name_map (partitioned safe fetched))) x)
     \<and> resolved_names (name_map (partitioned safe fetched)) =
         name ` set (global_rules (partitioned safe fetched)
                     @ private_rules_no_dep (partitioned safe fetched)
                     @ rules_no_dep (partitioned safe fetched))
     \<and> (safe \<longrightarrow>
          set ps \<inter> set (signature_list (sort_rules safe fetched)) = {}
          \<and> set gs \<inter> set (signature_list (sort_rules safe fetched)) = {})"
proof -
  obtain pp ps gp gs where h:
    "signature_list (sort_rules safe fetched) =
       global_rules (partitioned safe fetched) @ private_rules_no_dep (partitioned safe fetched)
       @ pp @ (if \<not> safe then ps else [])
       @ rules_no_dep (partitioned safe fetched) @ gp @ (if \<not> safe then gs else [])"
    "mset pp + mset ps = mset (private_rules_dep (partitioned safe fetched))"
    "mset gp + mset gs = mset (rules_dep (partitioned safe fetched))"
    "placed_ok (resolved_names (name_map (partitioned safe fetched))) pp"
    "\<forall>x\<in>set ps. found (mark pp (name_map (partitioned safe fetched))) x"
    "placed_ok (resolved_names (name_map (partitioned safe fetched))
                 \<union> name ` set (pp @ (if \<not> safe then ps else []))) gp"
    "\<forall>x\<in>set gs. found (mark (pp @ (if \<not> safe then ps else []) @ gp)
                          (name_map (partitioned safe fetched))) x"
    by (rule sort_rules_cases [of safe fetched])
  have "set ps \<inter> set (signature_list (sort_rules safe fetched)) = {}
      \<and> set gs \<inter> set (signature_list (sort_rules safe fetched)) = {}" if safe
    using dropped_absent [of fetched pp gp ps gs] h(1,2,3) that by simp
  with h seeded_names [of safe fetched] show ?thesis by blast
qed

theorem dependency_order_witness:
  "signature_list
     (sort_rules True
        [doc ''A'' ''rule'' [''B''] ''ORG_000001'' 1, doc ''B'' ''rule'' [''C''] ''ORG_000002'' 1,
         doc ''C'' ''rule'' [] ''ORG_000003'' 1, doc ''D'' ''rule'' [''Z''] ''ORG_000004'' 1])
   = [doc ''C'' ''rule'' [] ''ORG_000003'' 1, doc ''B'' ''rule'' [''C''] ''ORG_000002'' 1,
      doc ''A'' ''rule'' [''B''] ''ORG_000001'' 1]
   \<and> (\<exists>gp gs.
        [doc ''C'' ''rule'' [] ''ORG_000003'' 1, doc ''B'' ''rule'' [''C''] ''ORG_000002'' 1,
         doc ''A'' ''rule'' [''B''] ''ORG_000001'' 1]
        = doc ''C'' ''rule'' [] ''ORG_000003'' 1 # gp
        \<and> mset gp + mset gs
          = mset [doc ''A'' ''rule'' [''B''] ''ORG_000001'' 1,
                  doc ''B'' ''rule'' [''C''] ''ORG_000002'' 1,
                  doc ''D'' ''rule'' [''Z''] ''ORG_000004'' 1]
        \<and> placed_ok {Some ''C''} gp)"
proof -
  let ?fetched = "[doc ''A'' ''rule'' [''B''] ''ORG_000001'' 1,
         doc ''B'' ''rule'' [''C''] ''ORG_000002'' 1,
         doc ''C'' ''rule'' [] ''ORG_000003'' 1, doc ''D'' ''rule'' [''Z''] ''ORG_000004'' 1]"
  let ?b = "partitioned True ?fetched"
  have 1: "signature_list (sort_rules True ?fetched)
      = [doc ''C'' ''rule'' [] ''ORG_000003'' 1, doc ''B'' ''rule'' [''C''] ''ORG_000002'' 1,
         doc ''A'' ''rule'' [''B''] ''ORG_000001'' 1]"
    by code_simp
  have 2: "global_rules ?b = []" "private_rules_no_dep ?b = []" "private_rules_dep ?b = []"
    by code_simp+
  have 3: "rules_no_dep ?b = [doc ''C'' ''rule'' [] ''ORG_000003'' 1]"
    by code_simp
  have 4: "rules_dep ?b = [doc ''A'' ''rule'' [''B''] ''ORG_000001'' 1,
                  doc ''B'' ''rule'' [''C''] ''ORG_000002'' 1,
                  doc ''D'' ''rule'' [''Z''] ''ORG_000004'' 1]"
    by code_simp
  have 5: "name (doc ''C'' ''rule'' [] ''ORG_000003'' 1) = Some ''C''"
    by (simp add: doc_def)
  from dependency_order [of True ?fetched] show ?thesis
    unfolding 1 2 3 4 by (auto simp: 5)
qed

text \<open>
  C2. Every stalled record is to contribute exactly its unsatisfied dependency names to
  the unresolved-dependency report, never its own name. On the input of a lone standard
  record "A" that depends on the missing "B", in either mode, the general pass
  reports "A" and not "B". On the input of a global record "G" and a private
  record "P" that depends on "G" and on the missing "B", the private pass reports
  "G", which is resolved, along with "B".
\<close>

theorem stalled_report_names:
  "error_rules (sort_rules True [doc ''A'' ''rule'' [''B''] ''ORG_000001'' 1]) = [Some ''A'']
   \<and> rules_dep (rules_start True [doc ''A'' ''rule'' [''B''] ''ORG_000001'' 1])
     = [doc ''A'' ''rule'' [''B''] ''ORG_000001'' 1]
   \<and> \<not> lookup (name_map (rules_start True [doc ''A'' ''rule'' [''B''] ''ORG_000001'' 1])) ''B''
   \<and> signature_list (sort_rules True [doc ''A'' ''rule'' [''B''] ''ORG_000001'' 1]) = []
   \<and> error_rules (sort_rules False [doc ''A'' ''rule'' [''B''] ''ORG_000001'' 1]) = [Some ''A'']
   \<and> error_rules
       (sort_rules True
          [doc ''G'' ''global rule'' [] ''ORG_000001'' 1,
           doc ''P'' ''private rule'' [''G'', ''B''] ''ORG_000002'' 1])
     = [Some ''G'', Some ''B'']
   \<and> lookup
       (name_map
          (private_start True
             [doc ''G'' ''global rule'' [] ''ORG_000001'' 1,
              doc ''P'' ''private rule'' [''G'', ''B''] ''ORG_000002'' 1])) ''G''
   \<and> \<not> lookup
         (name_map
            (private_start True
               [doc ''G'' ''global rule'' [] ''ORG_000001'' 1,
                doc ''P'' ''private rule'' [''G'', ''B''] ''ORG_000002'' 1])) ''B''"
  by code_simp

end
